theory Spec2Isabelle
  imports Complex_Main "HOL-Library.AList" "HOL-Library.Multiset"
begin

section \<open>Out-of-order event reconciler (out-of-order/page.tsx)\<close>

text \<open>
  The page keeps one snapshot per entity in a JavaScript \<^verbatim>\<open>Map\<close> held in a ref. A
  \<^verbatim>\<open>Map\<close> remembers insertion order and \<^verbatim>\<open>set\<close> on a present key keeps the key's place,
  which is what \<^const>\<open>AList.update\<close> does on an association list; \<^verbatim>\<open>get\<close> is
  \<^const>\<open>map_of\<close>. Timestamps are the integral millisecond values the page itself produces
  (\<^verbatim>\<open>Date.now()\<close> plus whole offsets), so they are modelled as \<^typ>\<open>int\<close>.
\<close>

datatype EventType = Created | Updated | Deleted

record ServerEvent =
  ev_id :: string
  ev_timestamp :: int
  ev_type :: EventType
  ev_payload :: string

record ItemState =
  item_id :: string
  lastUpdated :: int
  item_type :: EventType
  item_payload :: string

text \<open>
  What \<^verbatim>\<open>localStorage.getItem\<close> followed by \<^verbatim>\<open>JSON.parse\<close> gives a page for its key: no
  item (or the empty string, which is falsy too), a text on which \<^verbatim>\<open>JSON.parse\<close> throws, or
  stored data of the shape the page writes.
\<close>

datatype 'a persisted = NoItem | Malformed | Stored 'a

record OrderPage =
  eventLog :: "ServerEvent list"
  stateMap :: "(string \<times> ItemState) list"
  isLoaded :: bool
  ordersDb :: "(string \<times> ItemState) list persisted"

definition initialOrderPage :: "(string \<times> ItemState) list persisted \<Rightarrow> OrderPage" where
  "initialOrderPage db = \<lparr>eventLog = [], stateMap = [], isLoaded = False, ordersDb = db\<rparr>"

text \<open>\<^verbatim>\<open>saveToStorage\<close>: nothing before the hydration effect has run, else the entries.\<close>

definition saveToStorage :: "OrderPage \<Rightarrow> OrderPage" where
  "saveToStorage s = (if \<not> isLoaded s then s else s\<lparr>ordersDb := Stored (stateMap s)\<rparr>)"

text \<open>The object literal that \<^verbatim>\<open>processEvent\<close> stores for an accepted event.\<close>

definition snapshotOf :: "ServerEvent \<Rightarrow> ItemState" where
  "snapshotOf newEvent =
     \<lparr>item_id = ev_id newEvent, lastUpdated = ev_timestamp newEvent,
      item_type = ev_type newEvent, item_payload = ev_payload newEvent\<rparr>"

text \<open>
  \<^verbatim>\<open>processEvent\<close>. The event is logged first, whatever happens to it. An existing record
  that is at least as new makes the function return early. \<^verbatim>\<open>refreshUI\<close> only derives the two
  view lists from the map and feeds nothing back, so it is left out.
\<close>

definition processEvent :: "ServerEvent \<Rightarrow> OrderPage \<Rightarrow> OrderPage" where
  "processEvent newEvent s =
     (let s1 = s\<lparr>eventLog := newEvent # eventLog s\<rparr>;
          existingRecord = map_of (stateMap s1) (ev_id newEvent)
      in if (case existingRecord of None \<Rightarrow> False
             | Some r \<Rightarrow> lastUpdated r \<ge> ev_timestamp newEvent)
         then s1
         else saveToStorage
                (s1\<lparr>stateMap := AList.update (ev_id newEvent) (snapshotOf newEvent) (stateMap s1)\<rparr>))"

text \<open>Events delivered one after the other, head first.\<close>

fun processEvents :: "ServerEvent list \<Rightarrow> OrderPage \<Rightarrow> OrderPage" where
  "processEvents [] s = s"
| "processEvents (ev # evs) s = processEvents evs (processEvent ev s)"

text \<open>The snapshot the map holds for an entity.\<close>

definition snapshot :: "OrderPage \<Rightarrow> string \<Rightarrow> ItemState option" where
  "snapshot s e = map_of (stateMap s) e"

text \<open>
  The hydration effect: a stored item replaces the map (\<^verbatim>\<open>new Map(entries)\<close>: a later entry
  for a key overwrites an earlier one); a parse failure is caught and leaves the map as it
  was; in every case \<^verbatim>\<open>isLoaded\<close> is set.
\<close>

definition newMap :: "(string \<times> ItemState) list \<Rightarrow> (string \<times> ItemState) list" where
  "newMap entries = fold (\<lambda>(k, v) m. AList.update k v m) entries []"

definition hydrate :: "OrderPage \<Rightarrow> OrderPage" where
  "hydrate s =
     (case ordersDb s of
        Stored parsedEntries \<Rightarrow> s\<lparr>stateMap := newMap parsedEntries, isLoaded := True\<rparr>
      | Malformed \<Rightarrow> s\<lparr>isLoaded := True\<rparr>
      | NoItem \<Rightarrow> s\<lparr>isLoaded := True\<rparr>)"

section \<open>Idempotency backend (api/form-consistent/route.ts)\<close>

text \<open>
  The request body as the interface \<^verbatim>\<open>TransactionRequest\<close> declares it; a field the JSON
  leaves out (or gives as \<^verbatim>\<open>null\<close>) is \<^const>\<open>None\<close>. The amount is a JSON number: the handler
  only tests it for falsiness and stores it, so a real number stands for it. The store is
  the module-level \<^verbatim>\<open>Map\<close> \<^verbatim>\<open>processedTransactions\<close>.
\<close>

record TransactionRequest =
  req_email :: "string option"
  req_amount :: "real option"
  idempotencyKey :: "string option"

record StoredTransaction =
  st_email :: string
  st_amount :: real
  st_date :: int

datatype ResponseBody =
    ErrorBody string
  | ResultBody string string string

record ApiResponse =
  res_body :: ResponseBody
  res_status :: nat

text \<open>
  \<^verbatim>\<open>POST\<close>. The request is \<^const>\<open>None\<close> when \<^verbatim>\<open>req.json()\<close> or the destructuring throws; the
  \<^verbatim>\<open>catch\<close> answers 500. \<open>random\<close> is the first \<^verbatim>\<open>Math.random()\<close> and \<open>now\<close> the value of
  \<^verbatim>\<open>new Date()\<close>; the delayed success only waits before it stores, and the wait is not
  modelled. The three-way pattern is \<^verbatim>\<open>!email || !amount || !idempotencyKey\<close> on typed fields:
  a missing field, an empty string and the number zero are the falsy values.
\<close>

definition POST ::
  "TransactionRequest option \<Rightarrow> real \<Rightarrow> int \<Rightarrow> (string \<times> StoredTransaction) list
     \<Rightarrow> ApiResponse \<times> (string \<times> StoredTransaction) list" where
  "POST req random now processedTransactions =
     (case req of
        None \<Rightarrow>
          (\<lparr>res_body = ErrorBody ''An unexpected error occurred'', res_status = 500\<rparr>,
           processedTransactions)
      | Some body \<Rightarrow>
          (case (req_email body, req_amount body, idempotencyKey body) of
             (Some email, Some amount, Some key) \<Rightarrow>
               if email = [] \<or> amount = 0 \<or> key = []
               then (\<lparr>res_body = ErrorBody ''Missing required fields'', res_status = 400\<rparr>,
                     processedTransactions)
               else if map_of processedTransactions key \<noteq> None
               then (\<lparr>res_body = ResultBody ''Transaction already processed'' ''success'' key,
                      res_status = 200\<rparr>,
                     processedTransactions)
               else if random < 0.3
               then (\<lparr>res_body = ErrorBody ''Service temporarily unavailable'', res_status = 503\<rparr>,
                     processedTransactions)
               else (\<lparr>res_body = ResultBody ''Transaction recorded successfully'' ''success'' key,
                      res_status = 200\<rparr>,
                     AList.update key \<lparr>st_email = email, st_amount = amount, st_date = now\<rparr>
                       processedTransactions)
           | _ \<Rightarrow>
               (\<lparr>res_body = ErrorBody ''Missing required fields'', res_status = 400\<rparr>,
                processedTransactions)))"

text \<open>The claim's words for a body that fails the basic validation.\<close>

definition missingField :: "TransactionRequest \<Rightarrow> bool" where
  "missingField body \<longleftrightarrow>
     req_email body = None \<or> req_email body = Some [] \<or>
     req_amount body = None \<or> req_amount body = Some 0 \<or>
     idempotencyKey body = None \<or> idempotencyKey body = Some []"

section \<open>Pagination backend (the quirky API route)\<close>

datatype Category = Space | Species | Tech

text \<open>
  A fact as the server sends it. The client's interface names the first four fields; the
  objects it keeps carry the timestamp as well.
\<close>

record Fact =
  fact_id :: string
  category :: Category
  title :: string
  description :: string
  fact_timestamp :: int

text \<open>
  The simulated database: fifty facts whose ids are \<^verbatim>\<open>unique-record-1000\<close> to
  \<^verbatim>\<open>unique-record-1049\<close>, built from four word tables. \<open>loaded\<close> is the value of \<^verbatim>\<open>Date.now()\<close>
  when the module is loaded.
\<close>

definition SUBJECTS :: "string list" where
  "SUBJECTS = [''The Quantum Computer'', ''A Mars Rover'', ''The Human DNA'', ''Dark Matter'',
     ''An AI Algorithm'', ''The Blue Whale'', ''A Neutron Star'', ''The Space Station'',
     ''Genetic Editing'', ''Virtual Reality'']"

definition VERBS :: "string list" where
  "VERBS = [''analyzes'', ''calculates'', ''discovers'', ''simulates'', ''orbits'', ''consumes'',
     ''transforms'', ''decodes'', ''navigates'', ''transmits'']"

definition ADJECTIVES :: "string list" where
  "ADJECTIVES = [''complex'', ''infinite'', ''microscopic'', ''ancient'', ''glowing'',
     ''radioactive'', ''digital'', ''frozen'', ''intelligent'', ''silent'']"

definition OBJECTS :: "string list" where
  "OBJECTS = [''data streams'', ''star clusters'', ''neural networks'', ''cosmic dust'',
     ''deep sea trenches'', ''encryption keys'', ''solar flares'', ''alien signals'',
     ''genetic sequences'', ''quantum bits'']"

text \<open>A number in a template string: its decimal digits.\<close>

definition digit :: "nat \<Rightarrow> char" where
  "digit d = ''0123456789'' ! (d mod 10)"

fun decimal :: "nat \<Rightarrow> string" where
  "decimal n = (if n < 10 then [digit n] else decimal (n div 10) @ [digit (n mod 10)])"

definition generateFact :: "nat \<Rightarrow> string" where
  "generateFact index =
     SUBJECTS ! (index mod length SUBJECTS) @ '' '' @
     VERBS ! ((index + 2) mod length VERBS) @ '' '' @
     ADJECTIVES ! ((index + 5) mod length ADJECTIVES) @ '' '' @
     OBJECTS ! ((index + 3) mod length OBJECTS) @ '' in a way that defies current physics.''"

definition categories :: "Category list" where
  "categories = [Space, Species, Tech]"

definition makeFact :: "int \<Rightarrow> nat \<Rightarrow> Fact" where
  "makeFact loaded i =
     \<lparr>fact_id = ''unique-record-'' @ decimal (i + 1000),
      category = categories ! (i mod 3),
      title = ''Insight #'' @ decimal (i + 1) @ '': '' @ SUBJECTS ! (i mod length SUBJECTS),
      description = generateFact i,
      fact_timestamp = loaded - int i * 50000\<rparr>"

definition FACTS_DB :: "int \<Rightarrow> Fact list" where
  "FACTS_DB loaded = map (makeFact loaded) [0..<50]"

text \<open>
  \<^verbatim>\<open>Array.prototype.slice\<close> on whole numbers: a negative index counts from the end, and
  both ends are clamped to the array.
\<close>

definition slice :: "'a list \<Rightarrow> int \<Rightarrow> int \<Rightarrow> 'a list" where
  "slice xs start end =
     (let len = int (length xs);
          k = (if start < 0 then max (len + start) 0 else min start len);
          final = (if end < 0 then max (len + end) 0 else min end len)
      in take (nat (final - k)) (drop (nat k) xs))"

definition PAGE_SIZE :: int where
  "PAGE_SIZE = 10"

text \<open>
  \<^verbatim>\<open>GET\<close> for a page number that \<^verbatim>\<open>parseInt\<close> could read (a missing parameter counts as 1).
  \<open>random1\<close> and \<open>random2\<close> are the two values of \<^verbatim>\<open>Math.random()\<close>: the first may shorten
  the page to seven items, the second puts the last two items of the page before in front.
\<close>

definition GET :: "int \<Rightarrow> int \<Rightarrow> real \<Rightarrow> real \<Rightarrow> Fact list" where
  "GET loaded page random1 random2 =
     (let start = (page - 1) * PAGE_SIZE;
          end = start + PAGE_SIZE
      in if start \<ge> int (length (FACTS_DB loaded)) then []
         else let result = slice (FACTS_DB loaded) start end;
                  result = (if int (length result) = PAGE_SIZE \<and> random1 > 0.7
                            then slice result 0 7 else result);
                  result = (if page > 1 \<and> random2 > 0.6
                            then slice (FACTS_DB loaded) (start - 2) start @ result else result)
              in result)"

section \<open>Pagination client (quirky/page.tsx)\<close>

datatype PageStatus = Idle | Loading | Failed | Finished

record QuirkyPage =
  items :: "Fact list"
  page :: int
  status :: PageStatus
  seenIds :: "string set"

definition initialQuirkyPage :: QuirkyPage where
  "initialQuirkyPage = \<lparr>items = [], page = 1, status = Idle, seenIds = {}\<rparr>"

text \<open>
  What one \<^verbatim>\<open>fetch\<close> of a page ends in: the request was aborted, it failed (the network, a
  status that is not ok, a body that is not JSON), or it delivered a batch.
\<close>

datatype PageResponse = Aborted | Rejected | Delivered "Fact list"

text \<open>
  The \<^verbatim>\<open>forEach\<close> of the deduplication: the set of seen ids grows inside the loop, so a
  repetition within one batch is dropped as well.
\<close>

fun dedupe :: "Fact list \<Rightarrow> string set \<Rightarrow> Fact list \<Rightarrow> string set \<times> Fact list" where
  "dedupe [] seen uniqueItems = (seen, uniqueItems)"
| "dedupe (item # rest) seen uniqueItems =
     (if fact_id item \<notin> seen
      then dedupe rest (insert (fact_id item) seen) (uniqueItems @ [item])
      else dedupe rest seen uniqueItems)"

definition fetchPage :: "PageResponse \<Rightarrow> QuirkyPage \<Rightarrow> QuirkyPage" where
  "fetchPage response s =
     (let s1 = s\<lparr>status := Loading\<rparr> in
      case response of
        Aborted \<Rightarrow> s1
      | Rejected \<Rightarrow> s1\<lparr>status := Failed\<rparr>
      | Delivered newBatch \<Rightarrow>
          if newBatch = [] then s1\<lparr>status := Finished\<rparr>
          else (case dedupe newBatch (seenIds s1) [] of
                  (seen, uniqueItems) \<Rightarrow>
                    s1\<lparr>seenIds := seen, items := items s1 @ uniqueItems, status := Idle\<rparr>))"

text \<open>
  \<^verbatim>\<open>handleLoadMore\<close> moves to the next page and fetches it. The mount effect and the retry
  button call \<^verbatim>\<open>fetchPage\<close> as it is.
\<close>

definition handleLoadMore :: "PageResponse \<Rightarrow> QuirkyPage \<Rightarrow> QuirkyPage" where
  "handleLoadMore response s = fetchPage response (s\<lparr>page := page s + 1\<rparr>)"

text \<open>
  What the user and the network do to the page, one after the other: a fetch of the current
  page (on mount, or by the retry button) or a click on the button for more, each with the
  way its request ends.
\<close>

datatype PageAction = FetchCurrent PageResponse | LoadMore PageResponse

fun act :: "PageAction \<Rightarrow> QuirkyPage \<Rightarrow> QuirkyPage" where
  "act (FetchCurrent response) s = fetchPage response s"
| "act (LoadMore response) s = handleLoadMore response s"

fun fetchPages :: "PageAction list \<Rightarrow> QuirkyPage \<Rightarrow> QuirkyPage" where
  "fetchPages [] s = s"
| "fetchPages (a # as) s = fetchPages as (act a s)"

section \<open>Idempotent submission engine (the payments page, page.tsx)\<close>

datatype TransactionStatus = Pending | Retrying | Success | Error

record Transaction =
  tx_id :: string
  tx_email :: string
  tx_amount :: string
  tx_status :: TransactionStatus
  tx_timestamp :: int

text \<open>
  What \<^verbatim>\<open>await fetch(...)\<close> gives: the promise rejects (no connection), or a response with
  an HTTP status arrives.
\<close>

datatype FetchResult = NetworkError | HttpStatus nat

text \<open>
  The page's effects on the outside, in the order they happen: a request sent for a key at
  an attempt number, a retry armed with \<^verbatim>\<open>setTimeout\<close> (key, attempt of the retry, delay in
  milliseconds), and a call of \<^verbatim>\<open>updateTransactionStatus\<close>.
\<close>

datatype Effect =
    Fetch string nat
  | SetTimeout string nat nat
  | SetStatus string TransactionStatus

text \<open>
  What the event loop holds for the page: a call of \<^verbatim>\<open>processTransaction\<close> suspended at its
  \<^verbatim>\<open>await\<close> until the response is there, and a timer that will call
  \<^verbatim>\<open>processTransaction(tx, attempt)\<close>.
\<close>

datatype Task =
    Response Transaction nat
  | Timer Transaction nat nat

fun task_key :: "Task \<Rightarrow> string" where
  "task_key (Response tx attempt) = tx_id tx"
| "task_key (Timer tx attempt delay) = tx_id tx"

fun task_attempt :: "Task \<Rightarrow> nat" where
  "task_attempt (Response tx attempt) = attempt"
| "task_attempt (Timer tx attempt delay) = attempt"

fun effect_key :: "Effect \<Rightarrow> string" where
  "effect_key (Fetch k attempt) = k"
| "effect_key (SetTimeout k attempt delay) = k"
| "effect_key (SetStatus k st) = k"

record PaymentsPage =
  transactions :: "Transaction list"
  logsLoaded :: bool
  txLogs :: "Transaction list persisted"
  tasks :: "Task list"
  trace :: "Effect list"

definition MAX_RETRIES :: nat where
  "MAX_RETRIES = 5"

definition RETRY_DELAY :: nat where
  "RETRY_DELAY = 2000"

text \<open>
  \<^verbatim>\<open>setTransactions\<close> with an updater function. The second effect of the page saves the
  list to \<^verbatim>\<open>localStorage\<close> after every change once \<^verbatim>\<open>isLoaded\<close> is set; it is folded in here.
\<close>

definition setTransactions :: "(Transaction list \<Rightarrow> Transaction list) \<Rightarrow> PaymentsPage \<Rightarrow> PaymentsPage" where
  "setTransactions f s =
     (let s1 = s\<lparr>transactions := f (transactions s)\<rparr>
      in if logsLoaded s1 then s1\<lparr>txLogs := Stored (transactions s1)\<rparr> else s1)"

definition updateTransactionStatus :: "string \<Rightarrow> TransactionStatus \<Rightarrow> PaymentsPage \<Rightarrow> PaymentsPage" where
  "updateTransactionStatus k st s =
     setTransactions (map (\<lambda>t. if tx_id t = k then t\<lparr>tx_status := st\<rparr> else t))
       (s\<lparr>trace := trace s @ [SetStatus k st]\<rparr>)"

text \<open>
  \<^verbatim>\<open>processTransaction\<close> up to its \<^verbatim>\<open>await\<close>: from the second attempt on the status is set to
  retrying, then the request goes out. The call is suspended until the request has ended;
  what it does then is \<open>onResponse\<close> below, run as a task of its own.
\<close>

definition processTransaction :: "Transaction \<Rightarrow> nat \<Rightarrow> PaymentsPage \<Rightarrow> PaymentsPage" where
  "processTransaction tx attempt s =
     (let s1 = (if attempt > 1 then updateTransactionStatus (tx_id tx) Retrying s else s)
      in s1\<lparr>trace := trace s1 @ [Fetch (tx_id tx) attempt],
             tasks := tasks s1 @ [Response tx attempt]\<rparr>)"

text \<open>The \<^verbatim>\<open>catch\<close> block: a retry after the fixed delay while attempts are left, else failed.\<close>

definition catchBlock :: "Transaction \<Rightarrow> nat \<Rightarrow> PaymentsPage \<Rightarrow> PaymentsPage" where
  "catchBlock tx attempt s =
     (if attempt < MAX_RETRIES
      then s\<lparr>trace := trace s @ [SetTimeout (tx_id tx) (attempt + 1) RETRY_DELAY],
              tasks := tasks s @ [Timer tx (attempt + 1) RETRY_DELAY]\<rparr>
      else updateTransactionStatus (tx_id tx) Error s)"

text \<open>
  The rest of \<^verbatim>\<open>processTransaction\<close>, once the request has ended: a rejected promise and a
  503 go to the \<^verbatim>\<open>catch\<close> block, \<^verbatim>\<open>response.ok\<close> (200 to 299) confirms, anything else fails.
\<close>

definition onResponse :: "FetchResult \<Rightarrow> Transaction \<Rightarrow> nat \<Rightarrow> PaymentsPage \<Rightarrow> PaymentsPage" where
  "onResponse r tx attempt s =
     (case r of
        NetworkError \<Rightarrow> catchBlock tx attempt s
      | HttpStatus code \<Rightarrow>
          if code = 503 then catchBlock tx attempt s
          else if 200 \<le> code \<and> code \<le> 299 then updateTransactionStatus (tx_id tx) Success s
          else updateTransactionStatus (tx_id tx) Error s)"


text \<open>
  The world outside the page: \<open>net k n\<close> is how the request for key \<open>k\<close> ends when its
  response is handled at time \<open>n\<close>, and \<open>pick n\<close> chooses which of the waiting tasks the event
  loop runs at time \<open>n\<close>. Time is the length of the trace; every task adds to the trace.
\<close>

record World =
  net :: "string \<Rightarrow> nat \<Rightarrow> FetchResult"
  pick :: "nat \<Rightarrow> nat"

definition runTask :: "World \<Rightarrow> Task \<Rightarrow> PaymentsPage \<Rightarrow> PaymentsPage" where
  "runTask w task s =
     (case task of
        Response tx attempt \<Rightarrow> onResponse (net w (tx_id tx) (length (trace s))) tx attempt s
      | Timer tx attempt delay \<Rightarrow> processTransaction tx attempt s)"

text \<open>The event loop takes the \<open>i\<close>-th waiting task out of the queue and runs it.\<close>

definition stepTask :: "World \<Rightarrow> nat \<Rightarrow> PaymentsPage \<Rightarrow> PaymentsPage" where
  "stepTask w i s =
     (if i < length (tasks s)
      then runTask w (tasks s ! i) (s\<lparr>tasks := take i (tasks s) @ drop (Suc i) (tasks s)\<rparr>)
      else s)"

definition nextTask :: "World \<Rightarrow> PaymentsPage \<Rightarrow> nat" where
  "nextTask w s = pick w (length (trace s)) mod length (tasks s)"

text \<open>
  How much work a waiting task can still cause: a response at attempt \<open>a\<close> may arm a timer
  for attempt \<open>a + 1\<close>, which sends the request whose response waits again.
\<close>

fun task_weight :: "Task \<Rightarrow> nat" where
  "task_weight (Response tx attempt) = 2 * (MAX_RETRIES - attempt) + 1"
| "task_weight (Timer tx attempt delay) = 2 * (MAX_RETRIES - attempt) + 2"

text \<open>The event loop run until nothing waits any more.\<close>

function run :: "World \<Rightarrow> PaymentsPage \<Rightarrow> PaymentsPage" where
  "run w s = (if tasks s = [] then s else run w (stepTask w (nextTask w s) s))"
  by pat_completeness auto
termination
proof (relation "measure (\<lambda>(w, s). sum_list (map task_weight (tasks s)))")
  show "wf (measure (\<lambda>(w, s). sum_list (map task_weight (tasks s))))"
    by simp
next
  fix w :: World and s :: PaymentsPage
  assume ne: "tasks s \<noteq> []"
  define i where "i = nextTask w s"
  have i: "i < length (tasks s)"
    using ne by (simp add: i_def nextTask_def)
  define others where "others = take i (tasks s) @ drop (Suc i) (tasks s)"
  have split: "sum_list (map task_weight (tasks s)) =
      sum_list (map task_weight others) + task_weight (tasks s ! i)"
  proof -
    have "tasks s = take i (tasks s) @ tasks s ! i # drop (Suc i) (tasks s)"
      using i by (rule id_take_nth_drop)
    then have "sum_list (map task_weight (tasks s)) =
        sum_list (map task_weight (take i (tasks s) @ tasks s ! i # drop (Suc i) (tasks s)))"
      by simp
    then show ?thesis by (simp add: others_def)
  qed
  have "sum_list (map task_weight (tasks (runTask w (tasks s ! i) (s\<lparr>tasks := others\<rparr>)))) <
      sum_list (map task_weight others) + task_weight (tasks s ! i)"
    by (cases "tasks s ! i")
      (auto simp: runTask_def onResponse_def catchBlock_def processTransaction_def
        updateTransactionStatus_def setTransactions_def Let_def MAX_RETRIES_def
        split: FetchResult.splits)
  then show "((w, stepTask w (nextTask w s) s), (w, s)) \<in>
      measure (\<lambda>(w, s). sum_list (map task_weight (tasks s)))"
    using i split by (simp add: stepTask_def i_def others_def)
qed

text \<open>The event loop run for at most \<open>n\<close> tasks: what has happened when the process stops early.\<close>

fun runFor :: "nat \<Rightarrow> World \<Rightarrow> PaymentsPage \<Rightarrow> PaymentsPage" where
  "runFor 0 w s = s"
| "runFor (Suc n) w s = (if tasks s = [] then s else runFor n w (stepTask w (nextTask w s) s))"

text \<open>
  \<^verbatim>\<open>handleSubmit\<close>: the form's two fields, the idempotency key drawn by
  \<^verbatim>\<open>crypto.randomUUID()\<close> and the clock are arguments. An empty field returns at once.
\<close>

definition handleSubmit :: "string \<Rightarrow> string \<Rightarrow> string \<Rightarrow> int \<Rightarrow> PaymentsPage \<Rightarrow> PaymentsPage" where
  "handleSubmit email amount uuid now s =
     (if email = [] \<or> amount = [] then s
      else let newTransaction =
                 \<lparr>tx_id = uuid, tx_email = email, tx_amount = amount,
                  tx_status = Pending, tx_timestamp = now\<rparr>
           in processTransaction newTransaction 1
                (setTransactions (\<lambda>prev. newTransaction # prev) s))"

text \<open>
  \<^verbatim>\<open>clearLogs\<close>, the dialog confirmed: the list is emptied and the item removed; the saving
  effect then writes the empty list.
\<close>

definition clearLogs :: "PaymentsPage \<Rightarrow> PaymentsPage" where
  "clearLogs s = setTransactions (\<lambda>prev. []) (s\<lparr>txLogs := NoItem\<rparr>)"

text \<open>
  The first effect, run once when the page starts: stored logs become the list and every
  entry that is pending or retrying is handed to \<^verbatim>\<open>processTransaction(tx, 1)\<close>; a parse
  failure is caught. Then \<^verbatim>\<open>isLoaded\<close> is set, and the saving effect writes the list.
\<close>

definition resumable :: "Transaction \<Rightarrow> bool" where
  "resumable tx \<longleftrightarrow> tx_status tx = Pending \<or> tx_status tx = Retrying"

definition resumeAll :: "Transaction list \<Rightarrow> PaymentsPage \<Rightarrow> PaymentsPage" where
  "resumeAll parsedLogs s =
     fold (\<lambda>tx st. if resumable tx then processTransaction tx 1 st else st) parsedLogs s"

definition loadLogs :: "PaymentsPage \<Rightarrow> PaymentsPage" where
  "loadLogs s =
     (let s1 = (case txLogs s of
                  Stored parsedLogs \<Rightarrow> resumeAll parsedLogs (setTransactions (\<lambda>prev. parsedLogs) s)
                | Malformed \<Rightarrow> s
                | NoItem \<Rightarrow> s)
      in s1\<lparr>logsLoaded := True, txLogs := Stored (transactions s1)\<rparr>)"

text \<open>
  A page that starts: React state and refs are fresh, nothing waits in the event loop, and
  \<^verbatim>\<open>localStorage\<close> holds what was saved. The trace is kept across starts: it records what the
  outside has seen of the page so far.
\<close>

definition startPage :: "Transaction list persisted \<Rightarrow> Effect list \<Rightarrow> PaymentsPage" where
  "startPage stored seen =
     loadLogs \<lparr>transactions = [], logsLoaded = False, txLogs = stored, tasks = [], trace = seen\<rparr>"

definition restart :: "PaymentsPage \<Rightarrow> PaymentsPage" where
  "restart s = startPage (txLogs s) (trace s)"

text \<open>The delivery attempts made for a key: the requests sent with it.\<close>

definition attempts :: "string \<Rightarrow> Effect list \<Rightarrow> nat" where
  "attempts k tr = length (filter (\<lambda>e. case e of Fetch k' a \<Rightarrow> k' = k | _ \<Rightarrow> False) tr)"

text \<open>The statuses of the entries the list holds for a key (one entry, for keys that are unique).\<close>

definition statusOf :: "PaymentsPage \<Rightarrow> string \<Rightarrow> TransactionStatus list" where
  "statusOf s k = map tx_status (filter (\<lambda>t. tx_id t = k) (transactions s))"

text \<open>The status of the first entry for a key, if the list has one.\<close>

definition statusAt :: "PaymentsPage \<Rightarrow> string \<Rightarrow> TransactionStatus option" where
  "statusAt s k = (case statusOf s k of [] \<Rightarrow> None | st # _ \<Rightarrow> Some st)"

text \<open>The effects a step has added to the trace.\<close>

definition newEffects :: "PaymentsPage \<Rightarrow> PaymentsPage \<Rightarrow> Effect list" where
  "newEffects s s' = drop (length (trace s)) (trace s')"

text \<open>
  How many more requests a waiting task can lead to: a response at attempt \<open>a\<close> can be
  followed by the attempts \<open>a + 1\<close> to \<^const>\<open>MAX_RETRIES\<close>, a timer sends one request first.
\<close>

definition fetchBudget :: "Task \<Rightarrow> nat" where
  "fetchBudget task =
     (case task of Response tx a \<Rightarrow> MAX_RETRIES - a | Timer tx a d \<Rightarrow> Suc (MAX_RETRIES - a))"

subsection \<open>The life of the page\<close>

text \<open>
  What can happen to the page: the user submits the form (the key is a fresh UUID: no
  effect so far carries it), the event loop runs one of the waiting tasks, the page is
  closed and started again, the user clears the log. The page's life begins with a start on
  an empty \<^verbatim>\<open>localStorage\<close>.
\<close>

inductive step :: "World \<Rightarrow> PaymentsPage \<Rightarrow> PaymentsPage \<Rightarrow> bool" for w :: World where
  Submits: "uuid \<notin> effect_key ` set (trace s) \<Longrightarrow> step w s (handleSubmit email amount uuid now s)"
| Runs: "i < length (tasks s) \<Longrightarrow> step w s (stepTask w i s)"
| Restarts: "step w s (restart s)"
| Clears: "step w s (clearLogs s)"

inductive reachable :: "World \<Rightarrow> PaymentsPage \<Rightarrow> bool" for w :: World where
  Starts: "reachable w (startPage NoItem [])"
| Steps: "reachable w s \<Longrightarrow> step w s s' \<Longrightarrow> reachable w s'"

text \<open>
  The ledger's state machine in the specification's words: an operation appears as
  pending; pending may stay or go to retrying, confirmed or failed; retrying may stay or go
  to confirmed or failed, never back to pending; confirmed and failed stay what they are.
  An operation disappears only when the log is purged.
\<close>

fun ledgerEdge :: "TransactionStatus option \<Rightarrow> TransactionStatus option \<Rightarrow> bool" where
  "ledgerEdge None new = (new = None \<or> new = Some Pending)"
| "ledgerEdge (Some Pending) new = True"
| "ledgerEdge (Some Retrying) new = (new \<noteq> Some Pending)"
| "ledgerEdge (Some Success) new = (new = Some Success \<or> new = None)"
| "ledgerEdge (Some Error) new = (new = Some Error \<or> new = None)"

text \<open>
  The invariant of the page's life: the log is saved, keys are unique in the list and among
  the waiting tasks, an entry a task waits for is pending or retrying, every key in use has
  left an effect, and the attempt numbers of waiting tasks are within bounds.
\<close>

definition live :: "TransactionStatus \<Rightarrow> bool" where
  "live st \<longleftrightarrow> st = Pending \<or> st = Retrying"

definition taskOk :: "Task \<Rightarrow> bool" where
  "taskOk task =
     (case task of
        Response tx a \<Rightarrow> 1 \<le> a \<and> a \<le> MAX_RETRIES
      | Timer tx a d \<Rightarrow> 2 \<le> a \<and> a \<le> MAX_RETRIES \<and> d = RETRY_DELAY)"

definition ledgerInv :: "PaymentsPage \<Rightarrow> bool" where
  "ledgerInv s \<longleftrightarrow>
     logsLoaded s \<and> txLogs s = Stored (transactions s) \<and>
     distinct (map tx_id (transactions s)) \<and>
     distinct (map task_key (tasks s)) \<and>
     (\<forall>task\<in>set (tasks s). \<forall>t\<in>set (transactions s).
        tx_id t = task_key task \<longrightarrow> live (tx_status t)) \<and>
     tx_id ` set (transactions s) \<subseteq> effect_key ` set (trace s) \<and>
     task_key ` set (tasks s) \<subseteq> effect_key ` set (trace s) \<and>
     (\<forall>task\<in>set (tasks s). taskOk task)"

subsection \<open>The first effect on stored text of any shape\<close>

text \<open>
  TypeScript's types are gone when the page runs: \<^verbatim>\<open>JSON.parse\<close> returns whatever value the
  stored text denotes, and the effect puts it into the state unchecked. The values of JSON
  (an object is the list of its properties, each name once), and what evaluating an
  expression ends in: a value, or a thrown \<^verbatim>\<open>TypeError\<close>.
\<close>

datatype json =
    JNull
  | JBool bool
  | JNum real
  | JStr string
  | JArr "json list"
  | JObj "(string \<times> json) list"

datatype 'a outcome = Returned 'a | Threw

text \<open>
  The page's state with the types erased: the \<^verbatim>\<open>transactions\<close> state, the \<^verbatim>\<open>isLoaded\<close> ref,
  and the entries the effect has handed to \<^verbatim>\<open>processTransaction(tx, 1)\<close>.
\<close>

record RawPaymentsPage =
  rawTransactions :: json
  rawLoaded :: bool
  rawResumed :: "json list"

definition initialRawPage :: RawPaymentsPage where
  "initialRawPage = \<lparr>rawTransactions = JArr [], rawLoaded = False, rawResumed = []\<rparr>"

text \<open>
  Reading \<^verbatim>\<open>tx.status\<close> and \<^verbatim>\<open>transactions.length\<close>: on \<^verbatim>\<open>null\<close> a property read throws; an
  object gives its property or \<^verbatim>\<open>undefined\<close> (\<^const>\<open>None\<close>); arrays and strings have a length
  and no status; numbers and booleans have neither.
\<close>

definition readStatus :: "json \<Rightarrow> json option outcome" where
  "readStatus v =
     (case v of
        JNull \<Rightarrow> Threw
      | JObj properties \<Rightarrow> Returned (map_of properties ''status'')
      | _ \<Rightarrow> Returned None)"

definition readLength :: "json \<Rightarrow> json option outcome" where
  "readLength v =
     (case v of
        JNull \<Rightarrow> Threw
      | JArr xs \<Rightarrow> Returned (Some (JNum (real (length xs))))
      | JStr s \<Rightarrow> Returned (Some (JNum (real (length s))))
      | JObj properties \<Rightarrow> Returned (map_of properties ''length'')
      | _ \<Rightarrow> Returned None)"

text \<open>
  The \<^verbatim>\<open>forEach\<close> of the resume logic over an array: an entry whose status reads as pending
  or retrying is resumed; an entry that is \<^verbatim>\<open>null\<close> throws, which ends the loop (the
  \<^verbatim>\<open>catch\<close> around it swallows the error) and keeps what was resumed before.
\<close>

fun forEachResume :: "json list \<Rightarrow> json list \<Rightarrow> json list" where
  "forEachResume [] resumed = resumed"
| "forEachResume (tx # rest) resumed =
     (case readStatus tx of
        Threw \<Rightarrow> resumed
      | Returned st \<Rightarrow>
          if st = Some (JStr ''pending'') \<or> st = Some (JStr ''retrying'')
          then forEachResume rest (resumed @ [tx])
          else forEachResume rest resumed)"

text \<open>
  The first effect on a fresh page. A parsed value goes into the state before anything
  looks at it; \<^verbatim>\<open>forEach\<close> exists on arrays only, and calling it on anything else throws
  inside the \<^verbatim>\<open>try\<close>.
\<close>

definition rawLoad :: "json persisted \<Rightarrow> RawPaymentsPage" where
  "rawLoad item =
     (case item of
        NoItem \<Rightarrow> initialRawPage\<lparr>rawLoaded := True\<rparr>
      | Malformed \<Rightarrow> initialRawPage\<lparr>rawLoaded := True\<rparr>
      | Stored parsedLogs \<Rightarrow>
          \<lparr>rawTransactions = parsedLogs, rawLoaded = True,
           rawResumed = (case parsedLogs of JArr entries \<Rightarrow> forEachResume entries [] | _ \<Rightarrow> [])\<rparr>)"

text \<open>
  The first thing the render function does with the state is to evaluate
  \<^verbatim>\<open>transactions.length > 0\<close>; when that read throws, the render throws.
\<close>

definition renderLogsHeader :: "RawPaymentsPage \<Rightarrow> json option outcome" where
  "renderLogsHeader s = readLength (rawTransactions s)"

text \<open>What \<^verbatim>\<open>JSON.stringify\<close> followed by \<^verbatim>\<open>JSON.parse\<close> makes of a transaction.\<close>

definition statusName :: "TransactionStatus \<Rightarrow> string" where
  "statusName st =
     (case st of Pending \<Rightarrow> ''pending'' | Retrying \<Rightarrow> ''retrying''
      | Success \<Rightarrow> ''success'' | Error \<Rightarrow> ''error'')"

definition encodeTx :: "Transaction \<Rightarrow> json" where
  "encodeTx tx =
     JObj [(''id'', JStr (tx_id tx)), (''email'', JStr (tx_email tx)),
           (''amount'', JStr (tx_amount tx)), (''status'', JStr (statusName (tx_status tx))),
           (''timestamp'', JNum (real_of_int (tx_timestamp tx)))]"

subsection \<open>Notions for the proofs\<close>

text \<open>What a key sees of a trace and of the tasks that wait.\<close>

definition traceOf :: "string \<Rightarrow> Effect list \<Rightarrow> Effect list" where
  "traceOf k tr = filter (\<lambda>e. effect_key e = k) tr"

definition tasksOf :: "string \<Rightarrow> Task list \<Rightarrow> Task list" where
  "tasksOf k ts = filter (\<lambda>t. task_key t = k) ts"



text \<open>The writes of retrying a trace holds for a key.\<close>

definition retryingWrites :: "string \<Rightarrow> Effect list \<Rightarrow> nat" where
  "retryingWrites k tr = length (filter (\<lambda>e. e = SetStatus k Retrying) tr)"

section \<open>Invariants and sample inputs\<close>

text \<open>The pagination client's invariant: no id twice in the list, and every listed id seen.\<close>

definition pageInvariant :: "QuirkyPage \<Rightarrow> bool" where
  "pageInvariant s \<longleftrightarrow> distinct (map fact_id (items s)) \<and> fact_id ` set (items s) \<subseteq> seenIds s"

text \<open>Sample inputs: an event for the order \<open>A\<close>, a request and a store for the key \<open>K1\<close>,
  a world in which every request ends in a 503, and a transaction.\<close>

definition evA :: "int \<Rightarrow> EventType \<Rightarrow> string \<Rightarrow> ServerEvent" where
  "evA t k p = \<lparr>ev_id = ''A'', ev_timestamp = t, ev_type = k, ev_payload = p\<rparr>"

definition reqK1 :: "string \<Rightarrow> real \<Rightarrow> TransactionRequest" where
  "reqK1 email amount = \<lparr>req_email = Some email, req_amount = Some amount, idempotencyKey = Some ''K1''\<rparr>"

definition storeK1 :: "(string \<times> StoredTransaction) list" where
  "storeK1 = [(''K1'', \<lparr>st_email = ''jane@example.com'', st_amount = 25, st_date = 1700000000000\<rparr>)]"

definition failingWorld :: World where
  "failingWorld = \<lparr>net = (\<lambda>k n. HttpStatus 503), pick = (\<lambda>n. 0)\<rparr>"

definition txK1 :: Transaction where
  "txK1 = \<lparr>tx_id = ''K1'', tx_email = ''jane@example.com'', tx_amount = ''25'',
           tx_status = Pending, tx_timestamp = 1700000000000\<rparr>"


definition afterReload :: PaymentsPage where
  "afterReload = runFor 5 failingWorld (restart (runFor 3 failingWorld
      (handleSubmit ''jane@example.com'' ''25'' ''K1'' 1700000000000 (startPage NoItem []))))"

section \<open>Properties of the reconciler\<close>

declare run.simps [simp del]

declare decimal.simps [simp del]

lemma snapshot_processEvent:
  "snapshot (processEvent ev s) e =
     (if ev_id ev = e \<and> (case snapshot s e of None \<Rightarrow> True | Some r \<Rightarrow> lastUpdated r < ev_timestamp ev)
      then Some (snapshotOf ev) else snapshot s e)"
  by (auto simp: processEvent_def snapshot_def saveToStorage_def Let_def update_conv'
      split: option.splits)




lemma snapshot_processEvents_stale:
  "snapshot s e = Some x \<Longrightarrow>
   \<forall>ev\<in>set es. ev_id ev = e \<longrightarrow> ev_timestamp ev \<le> lastUpdated x \<Longrightarrow>
   snapshot (processEvents es s) e = Some x"
  by (induction es arbitrary: s) (auto simp: snapshot_processEvent)




text \<open>
  Claim C2. One call of \<^verbatim>\<open>processEvent\<close>: when the entity has no snapshot, or the event
  is strictly newer than the snapshot, the snapshot becomes the record that carries the
  event's id, timestamp, type and payload (and a loaded page saves the new map); when the
  event is as old as the snapshot or older (the equal case included), the map and the
  stored item are left as they were. Snapshots of other entities never change, and the
  event is logged either way: the function returns a page, a discard is no error.
\<close>

theorem processEvent_accept_or_discard:
  "((snapshot s (ev_id ev) = None \<or>
      (\<exists>r. snapshot s (ev_id ev) = Some r \<and> lastUpdated r < ev_timestamp ev))
      \<longrightarrow> snapshot (processEvent ev s) (ev_id ev) =
            Some \<lparr>item_id = ev_id ev, lastUpdated = ev_timestamp ev,
                  item_type = ev_type ev, item_payload = ev_payload ev\<rparr> \<and>
          stateMap (processEvent ev s) =
            AList.update (ev_id ev)
              \<lparr>item_id = ev_id ev, lastUpdated = ev_timestamp ev,
               item_type = ev_type ev, item_payload = ev_payload ev\<rparr> (stateMap s) \<and>
          ordersDb (processEvent ev s) =
            (if isLoaded s then Stored (stateMap (processEvent ev s)) else ordersDb s)) \<and>
   ((\<exists>r. snapshot s (ev_id ev) = Some r \<and> ev_timestamp ev \<le> lastUpdated r)
      \<longrightarrow> stateMap (processEvent ev s) = stateMap s \<and> ordersDb (processEvent ev s) = ordersDb s) \<and>
   (\<forall>e. e \<noteq> ev_id ev \<longrightarrow> snapshot (processEvent ev s) e = snapshot s e) \<and>
   eventLog (processEvent ev s) = ev # eventLog s \<and>
   isLoaded (processEvent ev s) = isLoaded s"
  by (auto simp: processEvent_def snapshot_def saveToStorage_def snapshotOf_def Let_def
      update_conv' split: option.splits)

theorem processEvent_accept_or_discard_witness:
  "snapshot (processEvent (evA 110 Updated ''SHIPPED'') (hydrate (initialOrderPage NoItem))) ''A''
     = Some \<lparr>item_id = ''A'', lastUpdated = 110, item_type = Updated, item_payload = ''SHIPPED''\<rparr> \<and>
   ordersDb (processEvent (evA 110 Updated ''SHIPPED'') (hydrate (initialOrderPage NoItem)))
     = Stored [(''A'', \<lparr>item_id = ''A'', lastUpdated = 110, item_type = Updated,
                         item_payload = ''SHIPPED''\<rparr>)] \<and>
   stateMap (processEvent (evA 110 Deleted ''GONE'')
       (processEvent (evA 110 Updated ''SHIPPED'') (hydrate (initialOrderPage NoItem))))
     = [(''A'', \<lparr>item_id = ''A'', lastUpdated = 110, item_type = Updated,
                  item_payload = ''SHIPPED''\<rparr>)] \<and>
   stateMap (processEvent (evA 100 Created ''PENDING'')
       (processEvent (evA 110 Updated ''SHIPPED'') (hydrate (initialOrderPage NoItem))))
     = [(''A'', \<lparr>item_id = ''A'', lastUpdated = 110, item_type = Updated,
                  item_payload = ''SHIPPED''\<rparr>)] \<and>
   stateMap (processEvent (evA 120 Deleted ''GONE'')
       (processEvent (evA 110 Updated ''SHIPPED'') (hydrate (initialOrderPage NoItem))))
     = [(''A'', \<lparr>item_id = ''A'', lastUpdated = 120, item_type = Deleted,
                  item_payload = ''GONE''\<rparr>)]"
  using processEvent_accept_or_discard
    [of "hydrate (initialOrderPage NoItem)" "evA 110 Updated ''SHIPPED''"]
    processEvent_accept_or_discard
    [of "processEvent (evA 110 Updated ''SHIPPED'') (hydrate (initialOrderPage NoItem))"
        "evA 110 Deleted ''GONE''"]
    processEvent_accept_or_discard
    [of "processEvent (evA 110 Updated ''SHIPPED'') (hydrate (initialOrderPage NoItem))"
        "evA 100 Created ''PENDING''"]
    processEvent_accept_or_discard
    [of "processEvent (evA 110 Updated ''SHIPPED'') (hydrate (initialOrderPage NoItem))"
        "evA 120 Deleted ''GONE''"]
  by (simp add: evA_def snapshot_def hydrate_def initialOrderPage_def processEvent_def
      saveToStorage_def snapshotOf_def Let_def)

text \<open>
  Claim C3. After a deleted event with timestamp \<open>T\<close> has been applied, events for the same
  entity that are older than \<open>T\<close> and not deletions leave the snapshot as it is, whatever
  else is delivered among them. If nothing as new as \<open>T\<close> was stored before, the snapshot is
  the tombstone (the deletion's id, timestamp and payload, of kind deleted) and stays so;
  and if nothing newer than \<open>T\<close> was stored before, an event that is strictly newer than
  \<open>T\<close> and not a deletion replaces it: the snapshot then carries that event's id,
  timestamp, kind and payload, and its kind is no longer deleted.
\<close>

theorem tombstone_finality:
  assumes del: "ev_type d = Deleted" "ev_id d = e" "ev_timestamp d = T"
    and stale: "\<forall>ev\<in>set es. ev_id ev = e \<longrightarrow> ev_timestamp ev < T \<and> ev_type ev \<noteq> Deleted"
    and newer: "ev_id n = e" "T < ev_timestamp n" "ev_type n \<noteq> Deleted"
  shows "snapshot (processEvents es (processEvent d s)) e = snapshot (processEvent d s) e \<and>
         ((case snapshot s e of None \<Rightarrow> True | Some x \<Rightarrow> lastUpdated x < T) \<longrightarrow>
            snapshot (processEvents es (processEvent d s)) e =
              Some \<lparr>item_id = e, lastUpdated = T, item_type = Deleted,
                    item_payload = ev_payload d\<rparr>) \<and>
         ((case snapshot s e of None \<Rightarrow> True | Some x \<Rightarrow> lastUpdated x \<le> T) \<longrightarrow>
            snapshot (processEvent n (processEvents es (processEvent d s))) e =
              Some \<lparr>item_id = e, lastUpdated = ev_timestamp n, item_type = ev_type n,
                    item_payload = ev_payload n\<rparr> \<and>
            map_option item_type (snapshot (processEvent n (processEvents es (processEvent d s))) e)
              \<noteq> Some Deleted)"
proof -
  have "\<exists>x. snapshot (processEvent d s) e = Some x \<and> T \<le> lastUpdated x"
    using del by (cases "snapshot s e") (auto simp: snapshot_processEvent snapshotOf_def)
  then obtain x where x: "snapshot (processEvent d s) e = Some x" "T \<le> lastUpdated x"
    by blast
  have "\<forall>ev\<in>set es. ev_id ev = e \<longrightarrow> ev_timestamp ev \<le> lastUpdated x"
    using stale x(2) by fastforce
  from snapshot_processEvents_stale [OF x(1) this]
  have unchanged: "snapshot (processEvents es (processEvent d s)) e = Some x" .
  have one: "snapshot (processEvents es (processEvent d s)) e = snapshot (processEvent d s) e"
    using unchanged x by simp
  have two: "snapshot (processEvents es (processEvent d s)) e =
      Some \<lparr>item_id = e, lastUpdated = T, item_type = Deleted, item_payload = ev_payload d\<rparr>"
    if "case snapshot s e of None \<Rightarrow> True | Some x \<Rightarrow> lastUpdated x < T"
  proof -
    from that have "snapshot (processEvent d s) e = Some (snapshotOf d)"
      using del by (auto simp: snapshot_processEvent split: option.splits)
    with unchanged x del show ?thesis
      by (auto simp: snapshotOf_def)
  qed
  have three: "snapshot (processEvent n (processEvents es (processEvent d s))) e =
      Some \<lparr>item_id = e, lastUpdated = ev_timestamp n, item_type = ev_type n,
            item_payload = ev_payload n\<rparr> \<and>
      map_option item_type (snapshot (processEvent n (processEvents es (processEvent d s))) e)
        \<noteq> Some Deleted"
    if "case snapshot s e of None \<Rightarrow> True | Some x \<Rightarrow> lastUpdated x \<le> T"
  proof -
    from that have "lastUpdated x \<le> T"
      using del x(1)
      by (cases "snapshot s e") (auto simp: snapshot_processEvent snapshotOf_def split: if_splits)
    with unchanged newer show ?thesis
      by (simp add: snapshot_processEvent snapshotOf_def)
  qed
  from one two three show ?thesis by blast
qed

theorem tombstone_finality_witness:
  "snapshot (processEvents [evA 100 Created ''PENDING'', evA 105 Updated ''CONFIRMED'']
       (processEvent (evA 110 Deleted ''GONE'') (hydrate (initialOrderPage NoItem)))) ''A''
     = Some \<lparr>item_id = ''A'', lastUpdated = 110, item_type = Deleted, item_payload = ''GONE''\<rparr> \<and>
   snapshot (processEvent (evA 120 Created ''AGAIN'')
     (processEvents [evA 100 Created ''PENDING'', evA 105 Updated ''CONFIRMED'']
       (processEvent (evA 110 Deleted ''GONE'') (hydrate (initialOrderPage NoItem))))) ''A''
     = Some \<lparr>item_id = ''A'', lastUpdated = 120, item_type = Created, item_payload = ''AGAIN''\<rparr>"
  using tombstone_finality
    [of "evA 110 Deleted ''GONE''" "''A''" 110
        "[evA 100 Created ''PENDING'', evA 105 Updated ''CONFIRMED'']"
        "evA 120 Created ''AGAIN''" "hydrate (initialOrderPage NoItem)"]
  by (simp add: evA_def snapshot_def hydrate_def initialOrderPage_def processEvent_def
      saveToStorage_def snapshotOf_def Let_def)

section \<open>Properties of the backend and of the pagination client\<close>

text \<open>
  Claim C6 as stated fails: the validation runs before the idempotency check, so a request
  whose key is recorded but whose email is empty is answered 400, not with the replayed
  success.
\<close>

theorem replay_requires_valid_body_counterexample:
  "map_of storeK1 ''K1'' \<noteq> None \<and>
   POST (Some (reqK1 '''' 25)) 0.9 1700000000500 storeK1 =
     (\<lparr>res_body = ErrorBody ''Missing required fields'', res_status = 400\<rparr>, storeK1)"
  by (simp add: POST_def reqK1_def storeK1_def)

text \<open>
  Claim C6, amended. A request that passes the basic validation and whose key is recorded
  gets 200 with \<open>Transaction already processed\<close> and the store is left as it is; and every
  request answered with another status than 200 (that is 400, 503 or 500) leaves the store
  as it is, so no key is recorded for it.
\<close>

theorem idempotent_replay:
  "(\<not> missingField body \<and> idempotencyKey body = Some key \<and> map_of processedTransactions key \<noteq> None
      \<longrightarrow> POST (Some body) random now processedTransactions =
            (\<lparr>res_body = ResultBody ''Transaction already processed'' ''success'' key,
              res_status = 200\<rparr>, processedTransactions)) \<and>
   (res_status (fst (POST req random now processedTransactions)) \<noteq> 200
      \<longrightarrow> res_status (fst (POST req random now processedTransactions)) \<in> {400, 503, 500} \<and>
          snd (POST req random now processedTransactions) = processedTransactions)"
  by (auto simp: POST_def missingField_def split: option.splits)

theorem idempotent_replay_witness:
  "\<not> missingField (reqK1 ''jane@example.com'' 25) \<and>
   POST (Some (reqK1 ''jane@example.com'' 25)) 0.1 1700000000500 storeK1 =
     (\<lparr>res_body = ResultBody ''Transaction already processed'' ''success'' ''K1'', res_status = 200\<rparr>,
      storeK1) \<and>
   POST (Some (reqK1 ''jane@example.com'' 25)) 0.1 1700000000500 [] =
     (\<lparr>res_body = ErrorBody ''Service temporarily unavailable'', res_status = 503\<rparr>, []) \<and>
   snd (POST None 0.9 1700000000500 storeK1) = storeK1"
  using idempotent_replay [where body = "reqK1 ''jane@example.com'' 25" and key = "''K1''"
      and processedTransactions = storeK1 and req = "Some (reqK1 ''jane@example.com'' 25)"
      and random = "0.1" and now = 1700000000500]
    idempotent_replay [where body = "reqK1 ''jane@example.com'' 25" and key = "''K1''"
      and processedTransactions = "[]" and req = "Some (reqK1 ''jane@example.com'' 25)"
      and random = "0.1" and now = 1700000000500]
    idempotent_replay [where body = "reqK1 ''jane@example.com'' 25" and key = "''K1''"
      and processedTransactions = storeK1 and req = None
      and random = "0.9" and now = 1700000000500]
  by (simp add: POST_def reqK1_def storeK1_def missingField_def)

text \<open>
  Claim C10. A body in which the email, the amount or the key is missing or falsy (the
  amount zero included) is answered 400 with \<open>Missing required fields\<close>, and the store is
  left as it is.
\<close>

theorem missing_fields_rejected:
  "missingField body \<Longrightarrow>
   POST (Some body) random now processedTransactions =
     (\<lparr>res_body = ErrorBody ''Missing required fields'', res_status = 400\<rparr>, processedTransactions)"
  by (auto simp: POST_def missingField_def split: option.splits)

theorem missing_fields_rejected_witness:
  "missingField (reqK1 ''jane@example.com'' 0) \<and>
   POST (Some (reqK1 ''jane@example.com'' 0)) 0.9 1700000000500 [] =
     (\<lparr>res_body = ErrorBody ''Missing required fields'', res_status = 400\<rparr>, [])"
  using missing_fields_rejected [of "reqK1 ''jane@example.com'' 0" "0.9" 1700000000500 "[]"]
  by (simp add: reqK1_def missingField_def)

lemma dedupe_invariant:
  "distinct (map fact_id uniq) \<Longrightarrow> fact_id ` set uniq \<subseteq> seen \<Longrightarrow>
   dedupe batch seen uniq = (seen', uniq') \<Longrightarrow>
   distinct (map fact_id uniq') \<and> fact_id ` set uniq' \<subseteq> seen' \<and> seen \<subseteq> seen' \<and>
   (\<exists>new. uniq' = uniq @ new \<and> fact_id ` set new \<inter> seen = {} \<and> set new \<subseteq> set batch) \<and>
   seen' = seen \<union> fact_id ` set batch"
proof (induction batch seen uniq rule: dedupe.induct)
  case (1 seen uniqueItems)
  then show ?case by auto
next
  case (2 item rest seen uniqueItems)
  show ?case
  proof (cases "fact_id item \<in> seen")
    case True
    with 2 show ?thesis by auto
  next
    case False
    with "2.prems" have d: "dedupe rest (insert (fact_id item) seen) (uniqueItems @ [item]) = (seen', uniq')"
      by simp
    have "distinct (map fact_id (uniqueItems @ [item]))"
      using "2.prems" False by auto
    moreover have "fact_id ` set (uniqueItems @ [item]) \<subseteq> insert (fact_id item) seen"
      using "2.prems" by auto
    ultimately have ih: "distinct (map fact_id uniq') \<and> fact_id ` set uniq' \<subseteq> seen' \<and>
       insert (fact_id item) seen \<subseteq> seen' \<and>
       (\<exists>new. uniq' = (uniqueItems @ [item]) @ new \<and>
          fact_id ` set new \<inter> insert (fact_id item) seen = {} \<and> set new \<subseteq> set rest) \<and>
       seen' = insert (fact_id item) seen \<union> fact_id ` set rest"
      using "2.IH"(1) [OF False _ _ d] by blast
    then obtain new where new: "uniq' = (uniqueItems @ [item]) @ new"
      "fact_id ` set new \<inter> insert (fact_id item) seen = {}" "set new \<subseteq> set rest" by blast
    have "uniq' = uniqueItems @ (item # new) \<and> fact_id ` set (item # new) \<inter> seen = {} \<and>
        set (item # new) \<subseteq> set (item # rest)"
      using new False by auto
    then have "\<exists>new. uniq' = uniqueItems @ new \<and> fact_id ` set new \<inter> seen = {} \<and>
        set new \<subseteq> set (item # rest)" by blast
    with ih show ?thesis by auto
  qed
qed

lemma fetchPage_invariant: "pageInvariant s \<Longrightarrow> pageInvariant (fetchPage r s)"
proof (cases r)
  case (Delivered newBatch)
  assume inv: "pageInvariant s"
  obtain seen' uniq' where d: "dedupe newBatch (seenIds s) [] = (seen', uniq')"
    by (cases "dedupe newBatch (seenIds s) []") auto
  from dedupe_invariant [OF _ _ d]
  have u: "distinct (map fact_id uniq')" "fact_id ` set uniq' \<subseteq> seen'" "seenIds s \<subseteq> seen'"
    and "\<exists>new. uniq' = [] @ new \<and> fact_id ` set new \<inter> seenIds s = {} \<and> set new \<subseteq> set newBatch"
    by auto
  then have fresh: "fact_id ` set uniq' \<inter> seenIds s = {}" by auto
  have "distinct (map fact_id (items s @ uniq'))"
    using inv u(1) fresh unfolding pageInvariant_def by auto
  moreover have "fact_id ` set (items s @ uniq') \<subseteq> seen'"
    using inv u(2,3) unfolding pageInvariant_def by auto
  ultimately show ?thesis
    using Delivered d inv by (auto simp: fetchPage_def pageInvariant_def Let_def)
qed (auto simp: fetchPage_def pageInvariant_def Let_def)

lemma act_invariant: "pageInvariant s \<Longrightarrow> pageInvariant (act a s)"
proof (cases a)
  case (FetchCurrent response)
  assume "pageInvariant s"
  then show ?thesis using FetchCurrent by (simp add: fetchPage_invariant)
next
  case (LoadMore response)
  assume "pageInvariant s"
  then have "pageInvariant (s\<lparr>page := page s + 1\<rparr>)" by (simp add: pageInvariant_def)
  then show ?thesis using LoadMore by (simp add: handleLoadMore_def fetchPage_invariant)
qed

lemma fetchPages_invariant: "pageInvariant s \<Longrightarrow> pageInvariant (fetchPages as s)"
  by (induction as arbitrary: s) (simp_all add: act_invariant)

text \<open>
  Claim C9. Whatever the fetches deliver, in whatever order, with whatever overlap, the
  list of items never holds an id twice, and every listed id is in the set of seen ids.
\<close>

theorem items_never_repeat_an_id:
  "distinct (map fact_id (items (fetchPages as initialQuirkyPage))) \<and>
   fact_id ` set (items (fetchPages as initialQuirkyPage)) \<subseteq> seenIds (fetchPages as initialQuirkyPage)"
proof -
  have "pageInvariant initialQuirkyPage"
    by (simp add: pageInvariant_def initialQuirkyPage_def)
  from fetchPages_invariant [OF this, of as] show ?thesis
    by (simp add: pageInvariant_def)
qed

text \<open>The server's first two pages, the second with the overlap and without the shortening.\<close>

lemma slice_map: "slice (map f xs) a b = map f (slice xs a b)"
  by (simp add: slice_def Let_def take_map drop_map)

lemma length_FACTS_DB: "length (FACTS_DB loaded) = 50"
  by (simp add: FACTS_DB_def)

lemma GET_page1: "GET loaded 1 0.5 0.5 = map (makeFact loaded) [0..<10]"
  by (simp add: GET_def PAGE_SIZE_def length_FACTS_DB Let_def)
     (simp add: FACTS_DB_def slice_def take_map drop_map)

lemma GET_page2: "GET loaded 2 0.5 0.9 = map (makeFact loaded) [8..<20]"
  by (simp add: GET_def PAGE_SIZE_def length_FACTS_DB Let_def)
     (simp add: FACTS_DB_def slice_def take_map drop_map flip: map_append upt_add_eq_append)

lemma ids_page1: "map fact_id (GET loaded 1 0.5 0.5) =
   [''unique-record-1000'', ''unique-record-1001'', ''unique-record-1002'', ''unique-record-1003'',
    ''unique-record-1004'', ''unique-record-1005'', ''unique-record-1006'', ''unique-record-1007'',
    ''unique-record-1008'', ''unique-record-1009'']"
  unfolding GET_page1
  by (simp add: makeFact_def decimal.simps digit_def upt_rec)

lemma ids_page2: "map fact_id (GET loaded 2 0.5 0.9) =
   [''unique-record-1008'', ''unique-record-1009'',
    ''unique-record-1010'', ''unique-record-1011'', ''unique-record-1012'', ''unique-record-1013'',
    ''unique-record-1014'', ''unique-record-1015'', ''unique-record-1016'', ''unique-record-1017'',
    ''unique-record-1018'', ''unique-record-1019'']"
  unfolding GET_page2
  by (simp add: makeFact_def decimal.simps digit_def upt_rec)

theorem items_never_repeat_an_id_witness:
  "map fact_id (GET 1700000000000 2 0.5 0.9) =
     [''unique-record-1008'', ''unique-record-1009'',
      ''unique-record-1010'', ''unique-record-1011'', ''unique-record-1012'', ''unique-record-1013'',
      ''unique-record-1014'', ''unique-record-1015'', ''unique-record-1016'', ''unique-record-1017'',
      ''unique-record-1018'', ''unique-record-1019''] \<and>
   map fact_id (items (fetchPages
       [FetchCurrent (Delivered (GET 1700000000000 1 0.5 0.5)),
        LoadMore (Delivered (GET 1700000000000 2 0.5 0.9))] initialQuirkyPage)) =
     [''unique-record-1000'', ''unique-record-1001'', ''unique-record-1002'', ''unique-record-1003'',
      ''unique-record-1004'', ''unique-record-1005'', ''unique-record-1006'', ''unique-record-1007'',
      ''unique-record-1008'', ''unique-record-1009'',
      ''unique-record-1010'', ''unique-record-1011'', ''unique-record-1012'', ''unique-record-1013'',
      ''unique-record-1014'', ''unique-record-1015'', ''unique-record-1016'', ''unique-record-1017'',
      ''unique-record-1018'', ''unique-record-1019''] \<and>
   distinct (map fact_id (items (fetchPages
       [FetchCurrent (Delivered (GET 1700000000000 1 0.5 0.5)),
        LoadMore (Delivered (GET 1700000000000 2 0.5 0.9))] initialQuirkyPage)))"
proof -
  let ?as = "[FetchCurrent (Delivered (GET 1700000000000 1 0.5 0.5)),
        LoadMore (Delivered (GET 1700000000000 2 0.5 0.9))]"
  have "map fact_id (items (fetchPages ?as initialQuirkyPage)) =
     [''unique-record-1000'', ''unique-record-1001'', ''unique-record-1002'', ''unique-record-1003'',
      ''unique-record-1004'', ''unique-record-1005'', ''unique-record-1006'', ''unique-record-1007'',
      ''unique-record-1008'', ''unique-record-1009'',
      ''unique-record-1010'', ''unique-record-1011'', ''unique-record-1012'', ''unique-record-1013'',
      ''unique-record-1014'', ''unique-record-1015'', ''unique-record-1016'', ''unique-record-1017'',
      ''unique-record-1018'', ''unique-record-1019'']"
    unfolding GET_page1 GET_page2
    by (simp add: initialQuirkyPage_def fetchPage_def handleLoadMore_def Let_def upt_rec
        makeFact_def decimal.simps digit_def)
  with ids_page2 [of 1700000000000] items_never_repeat_an_id [of ?as]
  show ?thesis by simp
qed

section \<open>Properties of the submission engine\<close>

lemma run_done: "tasks s = [] \<Longrightarrow> run w s = s"
  by (simp add: run.simps)

lemma run_step: "tasks s \<noteq> [] \<Longrightarrow> run w s = run w (stepTask w (nextTask w s) s)"
  by (subst run.simps) simp

lemma nextTask_less: "tasks s \<noteq> [] \<Longrightarrow> nextTask w s < length (tasks s)"
  by (simp add: nextTask_def)

lemma traceOf_append [simp]: "traceOf k (xs @ ys) = traceOf k xs @ traceOf k ys"
  by (simp add: traceOf_def)

lemma traceOf_Nil [simp]: "traceOf k [] = []"
  by (simp add: traceOf_def)

lemma traceOf_Cons [simp]:
  "traceOf k (e # es) = (if effect_key e = k then e # traceOf k es else traceOf k es)"
  by (simp add: traceOf_def)

lemma tasksOf_append [simp]: "tasksOf k (xs @ ys) = tasksOf k xs @ tasksOf k ys"
  by (simp add: tasksOf_def)

lemma tasksOf_Nil [simp]: "tasksOf k [] = []"
  by (simp add: tasksOf_def)

lemma tasksOf_Cons [simp]:
  "tasksOf k (t # ts) = (if task_key t = k then t # tasksOf k ts else tasksOf k ts)"
  by (simp add: tasksOf_def)

lemma tasksOf_remove_other:
  assumes "i < length ts" and "task_key (ts ! i) \<noteq> k"
  shows "tasksOf k (take i ts @ drop (Suc i) ts) = tasksOf k ts"
proof -
  have "ts = take i ts @ ts ! i # drop (Suc i) ts"
    using assms(1) by (rule id_take_nth_drop)
  then have "tasksOf k ts = tasksOf k (take i ts @ ts ! i # drop (Suc i) ts)"
    by simp
  with assms(2) show ?thesis by simp
qed



subsection \<open>Fields after each operation\<close>

lemma updateTransactionStatus_fields [simp]:
  "tasks (updateTransactionStatus k st s) = tasks s"
  "trace (updateTransactionStatus k st s) = trace s @ [SetStatus k st]"
  "logsLoaded (updateTransactionStatus k st s) = logsLoaded s"
  "transactions (updateTransactionStatus k st s) =
     map (\<lambda>t. if tx_id t = k then t\<lparr>tx_status := st\<rparr> else t) (transactions s)"
  by (simp_all add: updateTransactionStatus_def setTransactions_def Let_def)

lemma status_filter_update:
  "map tx_status (filter (\<lambda>t. tx_id t = k')
      (map (\<lambda>t. if tx_id t = k then t\<lparr>tx_status := st\<rparr> else t) xs)) =
   (if k' = k then map (\<lambda>_. st) (map tx_status (filter (\<lambda>t. tx_id t = k) xs))
    else map tx_status (filter (\<lambda>t. tx_id t = k') xs))"
  by (induction xs) auto

lemma statusOf_update:
  "statusOf (updateTransactionStatus k st s) k' =
     (if k' = k then map (\<lambda>_. st) (statusOf s k) else statusOf s k')"
  unfolding statusOf_def updateTransactionStatus_fields by (rule status_filter_update)

lemma processTransaction_fields [simp]:
  "tasks (processTransaction tx a s) = tasks s @ [Response tx a]"
  "trace (processTransaction tx a s) =
     trace s @ (if a > 1 then [SetStatus (tx_id tx) Retrying] else []) @ [Fetch (tx_id tx) a]"
  "logsLoaded (processTransaction tx a s) = logsLoaded s"
  "transactions (processTransaction tx a s) =
     (if a > 1 then map (\<lambda>t. if tx_id t = tx_id tx then t\<lparr>tx_status := Retrying\<rparr> else t) (transactions s)
      else transactions s)"
  by (simp_all add: processTransaction_def Let_def)

lemma statusOf_processTransaction:
  "statusOf (processTransaction tx a s) k =
     (if a > 1 \<and> k = tx_id tx then map (\<lambda>_. Retrying) (statusOf s k) else statusOf s k)"
  unfolding statusOf_def processTransaction_fields
  by (simp add: status_filter_update)

lemma catchBlock_fields [simp]:
  "tasks (catchBlock tx a s) =
     (if a < MAX_RETRIES then tasks s @ [Timer tx (a + 1) RETRY_DELAY] else tasks s)"
  "trace (catchBlock tx a s) =
     trace s @ (if a < MAX_RETRIES then [SetTimeout (tx_id tx) (a + 1) RETRY_DELAY]
                else [SetStatus (tx_id tx) Error])"
  "logsLoaded (catchBlock tx a s) = logsLoaded s"
  "transactions (catchBlock tx a s) =
     (if a < MAX_RETRIES then transactions s
      else map (\<lambda>t. if tx_id t = tx_id tx then t\<lparr>tx_status := Error\<rparr> else t) (transactions s))"
  by (simp_all add: catchBlock_def)

lemma statusOf_catchBlock:
  "statusOf (catchBlock tx a s) k =
     (if \<not> a < MAX_RETRIES \<and> k = tx_id tx then map (\<lambda>_. Error) (statusOf s k) else statusOf s k)"
  unfolding statusOf_def catchBlock_fields
  by (simp add: status_filter_update)

lemma statusOf_tasks_update [simp]: "statusOf (s\<lparr>tasks := ts\<rparr>) k = statusOf s k"
  by (simp add: statusOf_def)

text \<open>One task of another key leaves what the key sees alone.\<close>

lemma stepTask_other:
  assumes "i < length (tasks s)" and "task_key (tasks s ! i) \<noteq> k"
  shows "traceOf k (trace (stepTask w i s)) = traceOf k (trace s)"
    and "statusOf (stepTask w i s) k = statusOf s k"
    and "tasksOf k (tasks (stepTask w i s)) = tasksOf k (tasks s)"
proof -
  let ?s = "s\<lparr>tasks := take i (tasks s) @ drop (Suc i) (tasks s)\<rparr>"
  have rest: "tasksOf k (tasks ?s) = tasksOf k (tasks s)"
    using tasksOf_remove_other [OF assms] by simp
  show "traceOf k (trace (stepTask w i s)) = traceOf k (trace s)"
    using assms
    by (cases "tasks s ! i")
      (auto simp: stepTask_def runTask_def onResponse_def split: FetchResult.splits)
  show "statusOf (stepTask w i s) k = statusOf s k"
    using assms
    by (cases "tasks s ! i")
      (auto simp: stepTask_def runTask_def onResponse_def statusOf_update statusOf_catchBlock
        statusOf_processTransaction split: FetchResult.splits)
  show "tasksOf k (tasks (stepTask w i s)) = tasksOf k (tasks s)"
    using assms rest
    by (cases "tasks s ! i")
      (auto simp: stepTask_def runTask_def onResponse_def split: FetchResult.splits)
qed








lemma runFor_unfold:
  "0 < n \<Longrightarrow> runFor n w s = (if tasks s = [] then s else runFor (n - 1) w (stepTask w (nextTask w s) s))"
  by (cases n) simp_all


subsection \<open>Resumption\<close>

lemma attempts_Nil [simp]: "attempts k [] = 0"
  by (simp add: attempts_def)


lemma budget_split:
  assumes "i < length ts" and "task_key (ts ! i) = k"
  shows "sum_list (map fetchBudget (tasksOf k ts)) =
         sum_list (map fetchBudget (tasksOf k (take i ts @ drop (Suc i) ts))) + fetchBudget (ts ! i)"
proof -
  have "ts = take i ts @ ts ! i # drop (Suc i) ts"
    using assms(1) by (rule id_take_nth_drop)
  then have "tasksOf k ts = tasksOf k (take i ts @ ts ! i # drop (Suc i) ts)"
    by simp
  with assms(2) show ?thesis by simp
qed



lemma resumeAll_fields:
  "tasks (resumeAll logs s) = tasks s @ map (\<lambda>tx. Response tx 1) (filter resumable logs)"
  "trace (resumeAll logs s) = trace s @ map (\<lambda>tx. Fetch (tx_id tx) 1) (filter resumable logs)"
  "transactions (resumeAll logs s) = transactions s"
  "logsLoaded (resumeAll logs s) = logsLoaded s"
  unfolding resumeAll_def
  by (induction logs arbitrary: s) (simp_all add: resumable_def)

lemma restart_fields:
  assumes "txLogs s = Stored logs"
  shows "tasks (restart s) = map (\<lambda>tx. Response tx 1) (filter resumable logs)"
    and "trace (restart s) = trace s @ map (\<lambda>tx. Fetch (tx_id tx) 1) (filter resumable logs)"
    and "transactions (restart s) = logs"
    and "txLogs (restart s) = Stored logs"
    and "logsLoaded (restart s)"
  using assms
  by (simp_all add: restart_def startPage_def loadLogs_def resumeAll_fields setTransactions_def Let_def)







subsection \<open>The ledger's state machine\<close>

lemma txLogs_update [simp]:
  "txLogs (updateTransactionStatus k st s) =
     (if logsLoaded s
      then Stored (map (\<lambda>t. if tx_id t = k then t\<lparr>tx_status := st\<rparr> else t) (transactions s))
      else txLogs s)"
  by (simp add: updateTransactionStatus_def setTransactions_def Let_def)

lemma txLogs_processTransaction [simp]:
  "txLogs (processTransaction tx a s) =
     (if a > 1 \<and> logsLoaded s
      then Stored (map (\<lambda>t. if tx_id t = tx_id tx then t\<lparr>tx_status := Retrying\<rparr> else t) (transactions s))
      else txLogs s)"
  by (simp add: processTransaction_def Let_def)

lemma txLogs_catchBlock [simp]:
  "txLogs (catchBlock tx a s) =
     (if \<not> a < MAX_RETRIES \<and> logsLoaded s
      then Stored (map (\<lambda>t. if tx_id t = tx_id tx then t\<lparr>tx_status := Error\<rparr> else t) (transactions s))
      else txLogs s)"
  by (simp add: catchBlock_def)

lemma tx_id_update [simp]:
  "tx_id (if c then t\<lparr>tx_status := st\<rparr> else t) = tx_id t"
  by simp

lemma ids_update [simp]:
  "map tx_id (map (\<lambda>t. if tx_id t = k then t\<lparr>tx_status := st\<rparr> else t) xs) = map tx_id xs"
  by (induction xs) auto

lemma ids_set_update [simp]:
  "tx_id ` set (map (\<lambda>t. if tx_id t = k then t\<lparr>tx_status := st\<rparr> else t) xs) = tx_id ` set xs"
  using ids_update [of k st xs] by (metis set_map)

lemma distinct_remove_nth:
  assumes "distinct (map f xs)" and "i < length xs"
  shows "distinct (map f (take i xs @ drop (Suc i) xs))"
    and "f (xs ! i) \<notin> f ` set (take i xs @ drop (Suc i) xs)"
    and "set (take i xs @ drop (Suc i) xs) \<subseteq> set xs"
    and "xs ! i \<in> set xs"
proof -
  have xs: "xs = take i xs @ xs ! i # drop (Suc i) xs"
    using assms(2) by (rule id_take_nth_drop)
  have "distinct (map f (take i xs @ xs ! i # drop (Suc i) xs))"
    using assms(1) xs by simp
  then show "distinct (map f (take i xs @ drop (Suc i) xs))"
    and "f (xs ! i) \<notin> f ` set (take i xs @ drop (Suc i) xs)"
    by auto
  show "set (take i xs @ drop (Suc i) xs) \<subseteq> set xs"
    by (auto dest: in_set_takeD in_set_dropD)
  show "xs ! i \<in> set xs" using assms(2) by simp
qed

lemma inv_start: "ledgerInv (startPage stored [])" if "stored = NoItem \<or> stored = Malformed"
  using that by (auto simp: ledgerInv_def startPage_def loadLogs_def Let_def)

lemma inv_clear: "ledgerInv s \<Longrightarrow> ledgerInv (clearLogs s)"
  by (auto simp: ledgerInv_def clearLogs_def setTransactions_def Let_def)

lemma inv_submit:
  assumes "ledgerInv s" and "uuid \<notin> effect_key ` set (trace s)"
  shows "ledgerInv (handleSubmit email amount uuid now s)"
proof (cases "email = [] \<or> amount = []")
  case True
  with assms(1) show ?thesis by (simp add: handleSubmit_def)
next
  case False
  have fresh: "uuid \<notin> tx_id ` set (transactions s)" "uuid \<notin> task_key ` set (tasks s)"
    using assms unfolding ledgerInv_def by auto
  show ?thesis
    using False assms(1) fresh
    unfolding ledgerInv_def handleSubmit_def
    by (auto simp: setTransactions_def Let_def live_def taskOk_def MAX_RETRIES_def)
qed

lemma inv_restart:
  assumes "ledgerInv s"
  shows "ledgerInv (restart s)"
proof -
  let ?txs = "transactions s"
  have stored: "txLogs s = Stored ?txs" and d: "distinct (map tx_id ?txs)"
    and keys: "tx_id ` set ?txs \<subseteq> effect_key ` set (trace s)"
    using assms by (simp_all add: ledgerInv_def)
  note f = restart_fields [OF stored]
  have inj: "inj_on tx_id (set ?txs)" using d by (simp add: distinct_map)
  have "distinct (map task_key (tasks (restart s)))"
    using d by (simp add: f comp_def distinct_map_filter)
  moreover have "\<forall>task\<in>set (tasks (restart s)). \<forall>t\<in>set (transactions (restart s)).
        tx_id t = task_key task \<longrightarrow> live (tx_status t)"
  proof (intro ballI impI)
    fix task t
    assume task: "task \<in> set (tasks (restart s))" and t: "t \<in> set (transactions (restart s))"
      and eq: "tx_id t = task_key task"
    from task obtain tx where tx: "tx \<in> set ?txs" "resumable tx" "task = Response tx 1"
      by (auto simp: f)
    from t have "t \<in> set ?txs" by (simp add: f)
    with inj tx eq have "t = tx" by (auto dest: inj_onD)
    with tx(2) show "live (tx_status t)" by (simp add: live_def resumable_def)
  qed
  moreover have "task_key ` set (tasks (restart s)) \<subseteq> effect_key ` set (trace (restart s))"
    using keys by (auto simp: f)
  moreover have "tx_id ` set (transactions (restart s)) \<subseteq> effect_key ` set (trace (restart s))"
    using keys by (auto simp: f)
  moreover have "\<forall>task\<in>set (tasks (restart s)). taskOk task"
    by (auto simp: f taskOk_def MAX_RETRIES_def)
  ultimately show ?thesis
    using d by (simp add: ledgerInv_def f)
qed

lemma inv_runTask:
  assumes inv: "logsLoaded r" "txLogs r = Stored (transactions r)"
      "distinct (map tx_id (transactions r))" "distinct (map task_key (tasks r))"
      "\<forall>task\<in>set (tasks r). \<forall>t\<in>set (transactions r). tx_id t = task_key task \<longrightarrow> live (tx_status t)"
      "tx_id ` set (transactions r) \<subseteq> effect_key ` set (trace r)"
      "task_key ` set (tasks r) \<subseteq> effect_key ` set (trace r)"
      "\<forall>task\<in>set (tasks r). taskOk task"
    and c: "taskOk c" "task_key c \<notin> task_key ` set (tasks r)"
      "task_key c \<in> effect_key ` set (trace r)"
      "\<forall>t\<in>set (transactions r). tx_id t = task_key c \<longrightarrow> live (tx_status t)"
  shows "ledgerInv (runTask w c r)"
proof (cases c)
  case (Timer tx a d)
  have other: "\<forall>task\<in>set (tasks r). task_key task \<noteq> tx_id tx"
    using c(2) Timer by force
  with inv c Timer show ?thesis
    unfolding ledgerInv_def runTask_def
    by (auto simp: live_def taskOk_def comp_def)
next
  case (Response tx a)
  have other: "\<forall>task\<in>set (tasks r). task_key task \<noteq> tx_id tx"
    using c(2) Response by force
  show ?thesis
  proof (cases "a < MAX_RETRIES")
    case True
    with inv c Response other show ?thesis
      unfolding ledgerInv_def runTask_def onResponse_def
      by (auto simp: live_def taskOk_def RETRY_DELAY_def comp_def split: FetchResult.splits)
  next
    case False
    with inv c Response other show ?thesis
      unfolding ledgerInv_def runTask_def onResponse_def
      by (auto simp: live_def taskOk_def comp_def split: FetchResult.splits)
  qed
qed

lemma inv_task:
  assumes "ledgerInv s" and i: "i < length (tasks s)"
  shows "ledgerInv (stepTask w i s)"
proof -
  define rest where "rest = take i (tasks s) @ drop (Suc i) (tasks s)"
  let ?r = "s\<lparr>tasks := rest\<rparr>"
  let ?c = "tasks s ! i"
  have d: "distinct (map task_key (tasks s))" using assms(1) by (simp add: ledgerInv_def)
  note rm = distinct_remove_nth [OF d i, folded rest_def]
  have live: "\<forall>task\<in>set (tasks s). \<forall>t\<in>set (transactions s).
        tx_id t = task_key task \<longrightarrow> live (tx_status t)"
    and keys: "task_key ` set (tasks s) \<subseteq> effect_key ` set (trace s)"
    and ok: "\<forall>task\<in>set (tasks s). taskOk task"
    using assms(1) by (simp_all add: ledgerInv_def)
  have "ledgerInv (runTask w ?c ?r)"
  proof (rule inv_runTask)
    show "logsLoaded ?r" "txLogs ?r = Stored (transactions ?r)"
      "distinct (map tx_id (transactions ?r))"
      using assms(1) by (simp_all add: ledgerInv_def)
    show "distinct (map task_key (tasks ?r))" using rm(1) by simp
    show "\<forall>task\<in>set (tasks ?r). \<forall>t\<in>set (transactions ?r).
        tx_id t = task_key task \<longrightarrow> live (tx_status t)"
      using live rm(3) by auto
    show "tx_id ` set (transactions ?r) \<subseteq> effect_key ` set (trace ?r)"
      using assms(1) by (simp add: ledgerInv_def)
    have "task_key ` set rest \<subseteq> effect_key ` set (trace s)"
      using keys rm(3) by blast
    then show "task_key ` set (tasks ?r) \<subseteq> effect_key ` set (trace ?r)" by simp
    show "\<forall>task\<in>set (tasks ?r). taskOk task"
      using ok rm(3) by auto
    show "taskOk ?c" using ok rm(4) by blast
    show "task_key ?c \<notin> task_key ` set (tasks ?r)" using rm(2) by simp
    have "task_key ?c \<in> effect_key ` set (trace s)" using keys rm(4) by blast
    then show "task_key ?c \<in> effect_key ` set (trace ?r)" by simp
    show "\<forall>t\<in>set (transactions ?r). tx_id t = task_key ?c \<longrightarrow> live (tx_status t)"
      using live rm(4) by simp
  qed
  then show ?thesis using i by (simp add: stepTask_def rest_def)
qed

lemma step_inv: "step w s s' \<Longrightarrow> ledgerInv s \<Longrightarrow> ledgerInv s'"
  by (induction rule: step.induct) (simp_all add: inv_submit inv_task inv_restart inv_clear)

lemma reachable_inv: "reachable w s \<Longrightarrow> ledgerInv s"
  by (induction rule: reachable.induct) (simp_all add: inv_start step_inv)

lemma ledgerEdge_refl: "ledgerEdge x x"
proof (cases x)
  case None
  then show ?thesis by simp
next
  case (Some st)
  then show ?thesis by (cases st) simp_all
qed

lemma ledgerEdge_None: "ledgerEdge x None"
proof (cases x)
  case None
  then show ?thesis by simp
next
  case (Some st)
  then show ?thesis by (cases st) simp_all
qed

lemma ledgerEdge_live:
  "x = None \<or> x = Some Pending \<or> x = Some Retrying \<Longrightarrow> st \<noteq> Pending \<Longrightarrow>
   ledgerEdge x (map_option (\<lambda>_. st) x)"
  by auto

lemma statusAt_map: "statusOf s' k = map (\<lambda>_. st) (statusOf s k) \<Longrightarrow>
  statusAt s' k = map_option (\<lambda>_. st) (statusAt s k)"
  by (simp add: statusAt_def split: list.splits)

lemma statusAt_same: "statusOf s' k = statusOf s k \<Longrightarrow> statusAt s' k = statusAt s k"
  by (simp add: statusAt_def)

lemma statusAt_live:
  assumes "\<forall>t\<in>set (transactions s). tx_id t = k \<longrightarrow> live (tx_status t)"
  shows "statusAt s k = None \<or> statusAt s k = Some Pending \<or> statusAt s k = Some Retrying"
proof (cases "statusOf s k")
  case Nil
  then show ?thesis by (simp add: statusAt_def)
next
  case (Cons st sts)
  then have "st \<in> set (statusOf s k)" by simp
  then have "live st" using assms by (auto simp: statusOf_def)
  with Cons show ?thesis by (simp add: statusAt_def live_def)
qed

lemma runTask_effects:
  "\<exists>es. trace (runTask w c r) = trace r @ es \<and>
        (\<forall>e\<in>set es. effect_key e = task_key c) \<and>
        (\<forall>st. SetStatus (task_key c) st \<in> set es \<longrightarrow>
           st \<noteq> Pending \<and>
           statusOf (runTask w c r) (task_key c) = map (\<lambda>_. st) (statusOf r (task_key c))) \<and>
        ((\<forall>st. SetStatus (task_key c) st \<notin> set es) \<longrightarrow>
           statusOf (runTask w c r) (task_key c) = statusOf r (task_key c))"
proof (cases c)
  case (Timer tx a d)
  then show ?thesis
    by (auto simp: runTask_def statusOf_processTransaction)
next
  case (Response tx a)
  then show ?thesis
    by (auto simp: runTask_def onResponse_def statusOf_update statusOf_catchBlock
        split: FetchResult.splits)
qed

lemma step_task_edge:
  assumes inv: "ledgerInv s" and i: "i < length (tasks s)"
  shows "ledgerEdge (statusAt s k) (statusAt (stepTask w i s) k) \<and>
         (\<forall>st. SetStatus k st \<in> set (newEffects s (stepTask w i s)) \<longrightarrow>
            st \<noteq> Pending \<and> (statusAt s k = Some st \<longrightarrow> st = Retrying) \<and>
            statusAt s k \<noteq> Some Success \<and> statusAt s k \<noteq> Some Error)"
proof -
  define rest where "rest = take i (tasks s) @ drop (Suc i) (tasks s)"
  let ?r = "s\<lparr>tasks := rest\<rparr>"
  let ?c = "tasks s ! i"
  let ?s' = "stepTask w i s"
  have s': "?s' = runTask w ?c ?r" using i by (simp add: stepTask_def rest_def)
  from runTask_effects [of w ?c ?r]
  obtain es where es: "trace ?s' = trace s @ es"
    "\<forall>e\<in>set es. effect_key e = task_key ?c"
    "\<forall>st. SetStatus (task_key ?c) st \<in> set es \<longrightarrow>
       st \<noteq> Pending \<and> statusOf ?s' (task_key ?c) = map (\<lambda>_. st) (statusOf s (task_key ?c))"
    "(\<forall>st. SetStatus (task_key ?c) st \<notin> set es) \<longrightarrow>
       statusOf ?s' (task_key ?c) = statusOf s (task_key ?c)"
    unfolding s' by auto
  have new: "newEffects s ?s' = es" by (simp add: newEffects_def es(1))
  show ?thesis
  proof (cases "task_key ?c = k")
    case False
    from stepTask_other(2) [OF i False, of w]
    have "statusAt ?s' k = statusAt s k" by (rule statusAt_same)
    moreover have "\<forall>st. SetStatus k st \<notin> set es"
      using es(2) False by fastforce
    ultimately show ?thesis by (simp add: new ledgerEdge_refl)
  next
    case True
    have c: "?c \<in> set (tasks s)" using i by simp
    have "\<forall>task\<in>set (tasks s). \<forall>t\<in>set (transactions s).
        tx_id t = task_key task \<longrightarrow> live (tx_status t)"
      using inv by (simp add: ledgerInv_def)
    from bspec [OF this c] True
    have "\<forall>t\<in>set (transactions s). tx_id t = k \<longrightarrow> live (tx_status t)"
      by simp
    then have lv: "statusAt s k = None \<or> statusAt s k = Some Pending \<or> statusAt s k = Some Retrying"
      by (rule statusAt_live)
    show ?thesis
    proof (cases "\<exists>st. SetStatus k st \<in> set es")
      case False
      with es(4) True have "statusOf ?s' k = statusOf s k"
        by blast
      then have "statusAt ?s' k = statusAt s k"
        by (rule statusAt_same)
      with False show ?thesis by (simp add: new ledgerEdge_refl)
    next
      case wr: True
      then obtain st where st: "SetStatus k st \<in> set es" by blast
      with es(3) True have np: "st \<noteq> Pending"
        and so: "statusOf ?s' k = map (\<lambda>_. st) (statusOf s k)" by blast+
      from so have at: "statusAt ?s' k = map_option (\<lambda>_. st) (statusAt s k)"
        by (rule statusAt_map)
      have edge: "ledgerEdge (statusAt s k) (statusAt ?s' k)"
        unfolding at using lv np by (rule ledgerEdge_live)
      have "st' \<noteq> Pending \<and> (statusAt s k = Some st' \<longrightarrow> st' = Retrying) \<and>
            statusAt s k \<noteq> Some Success \<and> statusAt s k \<noteq> Some Error"
        if "SetStatus k st' \<in> set es" for st'
      proof -
        from that es(3) True have "st' \<noteq> Pending" by blast
        with lv show ?thesis by auto
      qed
      with edge show ?thesis by (simp add: new)
    qed
  qed
qed

lemma ledger_edges:
  assumes "reachable w s" and "step w s s'"
  shows "ledgerEdge (statusAt s k) (statusAt s' k) \<and>
         (\<forall>st. SetStatus k st \<in> set (newEffects s s') \<longrightarrow>
            st \<noteq> Pending \<and> (statusAt s k = Some st \<longrightarrow> st = Retrying) \<and>
            statusAt s k \<noteq> Some Success \<and> statusAt s k \<noteq> Some Error) \<and>
         (\<forall>task\<in>set (tasks s). 1 \<le> task_attempt task \<and> task_attempt task \<le> MAX_RETRIES)"
proof -
  have inv: "ledgerInv s" using assms(1) by (rule reachable_inv)
  have bound: "\<forall>task\<in>set (tasks s). 1 \<le> task_attempt task \<and> task_attempt task \<le> MAX_RETRIES"
  proof
    fix task assume "task \<in> set (tasks s)"
    with inv have "taskOk task" by (simp add: ledgerInv_def)
    then show "1 \<le> task_attempt task \<and> task_attempt task \<le> MAX_RETRIES"
      by (cases task) (auto simp: taskOk_def)
  qed
  have "ledgerEdge (statusAt s k) (statusAt s' k) \<and>
         (\<forall>st. SetStatus k st \<in> set (newEffects s s') \<longrightarrow>
            st \<noteq> Pending \<and> (statusAt s k = Some st \<longrightarrow> st = Retrying) \<and>
            statusAt s k \<noteq> Some Success \<and> statusAt s k \<noteq> Some Error)"
    using assms(2) inv
  proof (cases rule: step.cases)
    case (Submits uuid email amount now)
    show ?thesis
    proof (cases "email = [] \<or> amount = []")
      case True
      then have "s' = s" using Submits by (simp add: handleSubmit_def)
      then show ?thesis by (simp add: newEffects_def ledgerEdge_refl)
    next
      case False
      have fresh: "uuid \<notin> tx_id ` set (transactions s)"
        using inv Submits(2) by (auto simp: ledgerInv_def)
      then have none: "statusOf s uuid = []"
        by (auto simp: statusOf_def filter_empty_conv)
      have tr: "newEffects s s' = [Fetch uuid 1]"
        using False Submits(1)
        by (simp add: newEffects_def handleSubmit_def setTransactions_def Let_def)
      have st: "statusOf s' k = (if k = uuid then Pending # statusOf s k else statusOf s k)"
        using False Submits(1)
        by (simp add: statusOf_def handleSubmit_def setTransactions_def Let_def)
      show ?thesis
      proof (cases "k = uuid")
        case True
        with st none show ?thesis by (simp add: tr statusAt_def)
      next
        case False
        with st have "statusAt s' k = statusAt s k" by (simp add: statusAt_def)
        then show ?thesis by (simp add: tr ledgerEdge_refl)
      qed
    qed
  next
    case (Runs i)
    with step_task_edge [OF inv Runs(2), of k w] show ?thesis by simp
  next
    case Restarts
    have stored: "txLogs s = Stored (transactions s)" using inv by (simp add: ledgerInv_def)
    note f = restart_fields [OF stored]
    have "statusAt s' k = statusAt s k"
      using Restarts by (simp add: statusAt_def statusOf_def f)
    moreover have "\<forall>st. SetStatus k st \<notin> set (newEffects s s')"
      using Restarts by (auto simp: newEffects_def f)
    ultimately show ?thesis by (simp add: ledgerEdge_refl)
  next
    case Clears
    have "statusAt s' k = None"
      using Clears by (simp add: statusAt_def statusOf_def clearLogs_def setTransactions_def Let_def)
    moreover have "newEffects s s' = []"
      using Clears by (simp add: newEffects_def clearLogs_def setTransactions_def Let_def)
    ultimately show ?thesis by (simp add: ledgerEdge_None)
  qed
  with bound show ?thesis by blast
qed

lemma retryingWrites_append:
  "retryingWrites k (xs @ ys) = retryingWrites k xs + retryingWrites k ys"
  by (simp add: retryingWrites_def)

lemma retryingWrites_traceOf: "retryingWrites k tr = retryingWrites k (traceOf k tr)"
  unfolding retryingWrites_def traceOf_def
  by (induction tr) auto

lemma runTask_retrying_budget:
  assumes "task_key task = k"
  shows "retryingWrites k (trace (runTask w task s)) +
           sum_list (map fetchBudget (tasksOf k (tasks (runTask w task s))))
         \<le> retryingWrites k (trace s) + sum_list (map fetchBudget (tasksOf k (tasks s))) +
             fetchBudget task"
proof (cases task)
  case (Response tx a)
  with assms show ?thesis
    by (auto simp: runTask_def onResponse_def retryingWrites_def fetchBudget_def
        split: FetchResult.splits)
next
  case (Timer tx a d)
  with assms show ?thesis
    by (auto simp: runTask_def retryingWrites_def fetchBudget_def)
qed

lemma run_retrying_bound:
  "retryingWrites k (trace (run w s)) \<le>
     retryingWrites k (trace s) + sum_list (map fetchBudget (tasksOf k (tasks s)))"
proof (induction w s rule: run.induct)
  case (1 w s)
  show ?case
  proof (cases "tasks s = []")
    case True
    then show ?thesis by (simp add: run_done)
  next
    case False
    let ?i = "nextTask w s"
    let ?s' = "stepTask w ?i s"
    have i: "?i < length (tasks s)" using False by (rule nextTask_less)
    note ih = "1.IH" [OF False]
    show ?thesis
    proof (cases "task_key (tasks s ! ?i) = k")
      case other: False
      note st = stepTask_other [OF i other, of w]
      have "retryingWrites k (trace ?s') = retryingWrites k (trace s)"
        using st(1) retryingWrites_traceOf [of k "trace ?s'"] retryingWrites_traceOf [of k "trace s"]
        by simp
      with ih st(3) show ?thesis
        by (simp add: run_step [OF False])
    next
      case True
      let ?r = "s\<lparr>tasks := take ?i (tasks s) @ drop (Suc ?i) (tasks s)\<rparr>"
      have s': "?s' = runTask w (tasks s ! ?i) ?r"
        using i by (simp add: stepTask_def)
      from runTask_retrying_budget [OF True, of w ?r] budget_split [OF i True]
      have "retryingWrites k (trace ?s') + sum_list (map fetchBudget (tasksOf k (tasks ?s')))
          \<le> retryingWrites k (trace s) + sum_list (map fetchBudget (tasksOf k (tasks s)))"
        by (simp add: s')
      with ih show ?thesis
        by (simp add: run_step [OF False])
    qed
  qed
qed

lemma tasksOf_distinct:
  "distinct (map task_key ts) \<Longrightarrow> tasksOf k ts = [] \<or> (\<exists>t\<in>set ts. tasksOf k ts = [t])"
proof (induction ts)
  case Nil
  then show ?case by simp
next
  case (Cons a ts)
  show ?case
  proof (cases "task_key a = k")
    case True
    with Cons.prems have "k \<notin> task_key ` set ts" by simp
    then have "\<forall>t\<in>set ts. task_key t \<noteq> k" by blast
    then have "tasksOf k ts = []" by (simp add: tasksOf_def filter_empty_conv)
    with True show ?thesis by simp
  next
    case False
    with Cons show ?thesis by auto
  qed
qed

lemma inv_budget:
  assumes "ledgerInv s"
  shows "sum_list (map fetchBudget (tasksOf k (tasks s))) \<le> MAX_RETRIES - 1"
proof -
  have d: "distinct (map task_key (tasks s))" and ok: "\<forall>task\<in>set (tasks s). taskOk task"
    using assms by (simp_all add: ledgerInv_def)
  from tasksOf_distinct [OF d, of k] show ?thesis
  proof
    assume "tasksOf k (tasks s) = []"
    then show ?thesis by simp
  next
    assume "\<exists>t\<in>set (tasks s). tasksOf k (tasks s) = [t]"
    then obtain t where t: "t \<in> set (tasks s)" "tasksOf k (tasks s) = [t]" by blast
    from ok t(1) have "taskOk t" by blast
    then have "fetchBudget t \<le> MAX_RETRIES - 1"
      by (cases t) (auto simp: taskOk_def fetchBudget_def)
    with t(2) show ?thesis by simp
  qed
qed

lemma runTask_retrying:
  assumes "trace (runTask w c r) = trace r @ es" and "SetStatus k Retrying \<in> set es"
  shows "\<exists>tx a d. c = Timer tx a d \<and> tx_id tx = k \<and> 1 < a \<and> es = [SetStatus k Retrying, Fetch k a]"
proof (cases c)
  case (Timer tx a d)
  with assms show ?thesis
    by (auto simp: runTask_def split: if_splits)
next
  case (Response tx a)
  with assms show ?thesis
    by (auto simp: runTask_def onResponse_def split: FetchResult.splits if_splits)
qed

lemma step_retrying:
  assumes inv: "ledgerInv s" and st: "step w s s'"
    and wr: "SetStatus k Retrying \<in> set (newEffects s s')"
  shows "\<exists>tx a. Timer tx a RETRY_DELAY \<in> set (tasks s) \<and> tx_id tx = k \<and>
           2 \<le> a \<and> a \<le> MAX_RETRIES \<and> newEffects s s' = [SetStatus k Retrying, Fetch k a]"
  using st
proof (cases rule: step.cases)
  case (Submits uuid email amount now)
  have "newEffects s s' = [] \<or> newEffects s s' = [Fetch uuid 1]"
    using Submits(1)
    by (cases "email = [] \<or> amount = []")
      (simp_all add: newEffects_def handleSubmit_def setTransactions_def Let_def)
  with wr show ?thesis by auto
next
  case (Runs i)
  define rest where "rest = take i (tasks s) @ drop (Suc i) (tasks s)"
  let ?c = "tasks s ! i"
  have s': "s' = runTask w ?c (s\<lparr>tasks := rest\<rparr>)"
    using Runs by (simp add: stepTask_def rest_def)
  from runTask_effects [of w ?c "s\<lparr>tasks := rest\<rparr>"]
  obtain es where es: "trace s' = trace s @ es" unfolding s' by auto
  then have new: "newEffects s s' = es" by (simp add: newEffects_def)
  have tr: "trace (runTask w ?c (s\<lparr>tasks := rest\<rparr>)) = trace (s\<lparr>tasks := rest\<rparr>) @ es"
    using es s' by simp
  have "SetStatus k Retrying \<in> set es" using wr new by simp
  from runTask_retrying [OF tr this]
  obtain tx a d where c: "?c = Timer tx a d" "tx_id tx = k" "es = [SetStatus k Retrying, Fetch k a]"
    by blast
  have mem: "?c \<in> set (tasks s)" using Runs(2) by simp
  have "\<forall>task\<in>set (tasks s). taskOk task" using inv by (simp add: ledgerInv_def)
  from bspec [OF this mem] c(1) have "2 \<le> a" "a \<le> MAX_RETRIES" "d = RETRY_DELAY"
    by (simp_all add: taskOk_def)
  with c mem new show ?thesis by auto
next
  case Restarts
  have stored: "txLogs s = Stored (transactions s)" using inv by (simp add: ledgerInv_def)
  note f = restart_fields [OF stored]
  have "SetStatus k Retrying \<notin> set (newEffects s s')"
    using Restarts by (auto simp: newEffects_def f)
  with wr show ?thesis by simp
next
  case Clears
  have "newEffects s s' = []"
    using Clears by (simp add: newEffects_def clearLogs_def setTransactions_def Let_def)
  with wr show ?thesis by simp
qed

lemma reachable_runFor: "reachable w s \<Longrightarrow> reachable w (runFor n w s)"
proof (induction n arbitrary: s)
  case 0
  then show ?case by simp
next
  case (Suc n)
  show ?case
  proof (cases "tasks s = []")
    case True
    with Suc.prems show ?thesis by simp
  next
    case False
    then have "step w s (stepTask w (nextTask w s) s)"
      by (intro step.Runs nextTask_less)
    with Suc.prems have "reachable w (stepTask w (nextTask w s) s)"
      by (rule reachable.Steps)
    from Suc.IH [OF this] False show ?thesis by simp
  qed
qed

text \<open>
  Claim C7, amended. For every state the page can reach and every step from it, the status
  of each key moves along an edge of the ledger's state machine: it appears as pending,
  never returns to pending, and never leaves confirmed or failed except by a purge. Every
  call of \<^verbatim>\<open>updateTransactionStatus\<close> the step makes writes retrying, confirmed or failed onto
  an entry that is pending or retrying, so the only write that repeats the status it finds
  is retrying onto retrying. Every write of retrying is a timer firing for a retry whose
  attempt number in this run of the page is between 2 and \<^const>\<open>MAX_RETRIES\<close>, followed at once
  by the request of that attempt; and from any reachable state on, a run of the page writes
  retrying at most \<^const>\<open>MAX_RETRIES\<close> minus one times more for a key.
\<close>

theorem ledger_state_machine:
  assumes "reachable w s" and "step w s s'"
  shows "ledgerEdge (statusAt s k) (statusAt s' k) \<and>
         (\<forall>st. SetStatus k st \<in> set (newEffects s s') \<longrightarrow>
            st \<noteq> Pending \<and> (statusAt s k = Some st \<longrightarrow> st = Retrying) \<and>
            statusAt s k \<noteq> Some Success \<and> statusAt s k \<noteq> Some Error) \<and>
         (\<forall>task\<in>set (tasks s). 1 \<le> task_attempt task \<and> task_attempt task \<le> MAX_RETRIES) \<and>
         (SetStatus k Retrying \<in> set (newEffects s s') \<longrightarrow>
            (\<exists>tx a. Timer tx a RETRY_DELAY \<in> set (tasks s) \<and> tx_id tx = k \<and>
               2 \<le> a \<and> a \<le> MAX_RETRIES \<and>
               newEffects s s' = [SetStatus k Retrying, Fetch k a])) \<and>
         retryingWrites k (trace (run w s)) \<le> retryingWrites k (trace s) + (MAX_RETRIES - 1)"
proof -
  have inv: "ledgerInv s" using assms(1) by (rule reachable_inv)
  have four: "SetStatus k Retrying \<in> set (newEffects s s') \<longrightarrow>
            (\<exists>tx a. Timer tx a RETRY_DELAY \<in> set (tasks s) \<and> tx_id tx = k \<and>
               2 \<le> a \<and> a \<le> MAX_RETRIES \<and>
               newEffects s s' = [SetStatus k Retrying, Fetch k a])"
    using step_retrying [OF inv assms(2)] by blast
  have "retryingWrites k (trace (run w s)) \<le>
      retryingWrites k (trace s) + sum_list (map fetchBudget (tasksOf k (tasks s)))"
    by (rule run_retrying_bound)
  with inv_budget [OF inv, of k]
  have five: "retryingWrites k (trace (run w s)) \<le> retryingWrites k (trace s) + (MAX_RETRIES - 1)"
    by simp
  from ledger_edges [OF assms, of k] four five show ?thesis by blast
qed

text \<open>
  Claim C7 as stated fails in its bound: the attempts an operation has made do not limit
  the retrying self-transition. After a reload \<open>K1\<close> has made \<^const>\<open>MAX_RETRIES\<close> requests and is
  retrying, and the next step of the page writes retrying onto it again and sends a sixth.
\<close>

theorem retrying_repeats_at_max_attempts_counterexample:
  "reachable failingWorld afterReload \<and>
   step failingWorld afterReload (stepTask failingWorld 0 afterReload) \<and>
   attempts ''K1'' (trace afterReload) = MAX_RETRIES \<and>
   statusAt afterReload ''K1'' = Some Retrying \<and>
   newEffects afterReload (stepTask failingWorld 0 afterReload)
     = [SetStatus ''K1'' Retrying, Fetch ''K1'' 4] \<and>
   statusAt (stepTask failingWorld 0 afterReload) ''K1'' = Some Retrying \<and>
   attempts ''K1'' (trace (stepTask failingWorld 0 afterReload)) = 6"
proof -
  let ?s1 = "handleSubmit ''jane@example.com'' ''25'' ''K1'' 1700000000000 (startPage NoItem [])"
  let ?s2 = "runFor 3 failingWorld ?s1"
  have "reachable failingWorld (startPage NoItem [])" by (rule reachable.Starts)
  moreover have "step failingWorld (startPage NoItem []) ?s1"
    by (rule step.Submits) (simp add: startPage_def loadLogs_def Let_def)
  ultimately have "reachable failingWorld ?s1" by (rule reachable.Steps)
  then have "reachable failingWorld ?s2" by (rule reachable_runFor)
  moreover have "step failingWorld ?s2 (restart ?s2)" by (rule step.Restarts)
  ultimately have "reachable failingWorld (restart ?s2)" by (rule reachable.Steps)
  then have reach: "reachable failingWorld afterReload"
    unfolding afterReload_def by (rule reachable_runFor)
  have s2: "?s2 = \<lparr>transactions = [txK1\<lparr>tx_status := Retrying\<rparr>], logsLoaded = True,
      txLogs = Stored [txK1\<lparr>tx_status := Retrying\<rparr>],
      tasks = [Timer txK1 3 2000],
      trace = [Fetch ''K1'' 1, SetTimeout ''K1'' 2 2000, SetStatus ''K1'' Retrying, Fetch ''K1'' 2,
               SetTimeout ''K1'' 3 2000]\<rparr>"
    by (simp add: runFor_unfold failingWorld_def txK1_def handleSubmit_def startPage_def
        loadLogs_def setTransactions_def processTransaction_def updateTransactionStatus_def
        stepTask_def nextTask_def runTask_def onResponse_def catchBlock_def MAX_RETRIES_def
        RETRY_DELAY_def Let_def)
  have r: "restart ?s2 = \<lparr>transactions = [txK1\<lparr>tx_status := Retrying\<rparr>], logsLoaded = True,
      txLogs = Stored [txK1\<lparr>tx_status := Retrying\<rparr>],
      tasks = [Response (txK1\<lparr>tx_status := Retrying\<rparr>) 1],
      trace = [Fetch ''K1'' 1, SetTimeout ''K1'' 2 2000, SetStatus ''K1'' Retrying, Fetch ''K1'' 2,
               SetTimeout ''K1'' 3 2000, Fetch ''K1'' 1]\<rparr>"
    unfolding s2
    by (simp add: restart_def startPage_def loadLogs_def resumeAll_def resumable_def
        setTransactions_def processTransaction_def txK1_def Let_def)
  have s: "afterReload = \<lparr>transactions = [txK1\<lparr>tx_status := Retrying\<rparr>], logsLoaded = True,
      txLogs = Stored [txK1\<lparr>tx_status := Retrying\<rparr>],
      tasks = [Timer (txK1\<lparr>tx_status := Retrying\<rparr>) 4 2000],
      trace = [Fetch ''K1'' 1, SetTimeout ''K1'' 2 2000, SetStatus ''K1'' Retrying, Fetch ''K1'' 2,
               SetTimeout ''K1'' 3 2000, Fetch ''K1'' 1,
               SetTimeout ''K1'' 2 2000, SetStatus ''K1'' Retrying, Fetch ''K1'' 2,
               SetTimeout ''K1'' 3 2000, SetStatus ''K1'' Retrying, Fetch ''K1'' 3,
               SetTimeout ''K1'' 4 2000]\<rparr>"
    unfolding afterReload_def r
    by (simp add: runFor_unfold failingWorld_def txK1_def
        setTransactions_def processTransaction_def updateTransactionStatus_def
        stepTask_def nextTask_def runTask_def onResponse_def catchBlock_def MAX_RETRIES_def
        RETRY_DELAY_def Let_def)
  have s': "stepTask failingWorld 0 afterReload =
      \<lparr>transactions = [txK1\<lparr>tx_status := Retrying\<rparr>], logsLoaded = True,
      txLogs = Stored [txK1\<lparr>tx_status := Retrying\<rparr>],
      tasks = [Response (txK1\<lparr>tx_status := Retrying\<rparr>) 4],
      trace = [Fetch ''K1'' 1, SetTimeout ''K1'' 2 2000, SetStatus ''K1'' Retrying, Fetch ''K1'' 2,
               SetTimeout ''K1'' 3 2000, Fetch ''K1'' 1,
               SetTimeout ''K1'' 2 2000, SetStatus ''K1'' Retrying, Fetch ''K1'' 2,
               SetTimeout ''K1'' 3 2000, SetStatus ''K1'' Retrying, Fetch ''K1'' 3,
               SetTimeout ''K1'' 4 2000, SetStatus ''K1'' Retrying, Fetch ''K1'' 4]\<rparr>"
    unfolding s
    by (simp add: txK1_def stepTask_def runTask_def processTransaction_def
        updateTransactionStatus_def setTransactions_def Let_def)
  have st: "step failingWorld afterReload (stepTask failingWorld 0 afterReload)"
    by (rule step.Runs) (simp add: s)
  have a: "attempts ''K1'' (trace afterReload) = MAX_RETRIES"
    unfolding s by (simp add: attempts_def MAX_RETRIES_def)
  have b: "statusAt afterReload ''K1'' = Some Retrying"
    unfolding s by (simp add: statusAt_def statusOf_def txK1_def)
  have c: "newEffects afterReload (stepTask failingWorld 0 afterReload)
     = [SetStatus ''K1'' Retrying, Fetch ''K1'' 4]"
    unfolding s' unfolding s by (simp add: newEffects_def)
  have d: "statusAt (stepTask failingWorld 0 afterReload) ''K1'' = Some Retrying"
    unfolding s' by (simp add: statusAt_def statusOf_def txK1_def)
  have e: "attempts ''K1'' (trace (stepTask failingWorld 0 afterReload)) = 6"
    unfolding s' by (simp add: attempts_def)
  from reach st a b c d e show ?thesis by blast
qed

theorem ledger_state_machine_witness:
  "reachable failingWorld
     (stepTask failingWorld 0
       (handleSubmit ''jane@example.com'' ''25'' ''K1'' 1700000000000 (startPage NoItem []))) \<and>
   step failingWorld
     (stepTask failingWorld 0
       (handleSubmit ''jane@example.com'' ''25'' ''K1'' 1700000000000 (startPage NoItem [])))
     (stepTask failingWorld 0 (stepTask failingWorld 0
       (handleSubmit ''jane@example.com'' ''25'' ''K1'' 1700000000000 (startPage NoItem [])))) \<and>
   statusAt (stepTask failingWorld 0
       (handleSubmit ''jane@example.com'' ''25'' ''K1'' 1700000000000 (startPage NoItem []))) ''K1''
     = Some Pending \<and>
   statusAt (stepTask failingWorld 0 (stepTask failingWorld 0
       (handleSubmit ''jane@example.com'' ''25'' ''K1'' 1700000000000 (startPage NoItem [])))) ''K1''
     = Some Retrying \<and>
   ledgerEdge (Some Pending) (Some Retrying) \<and>
   newEffects (stepTask failingWorld 0
       (handleSubmit ''jane@example.com'' ''25'' ''K1'' 1700000000000 (startPage NoItem [])))
     (stepTask failingWorld 0 (stepTask failingWorld 0
       (handleSubmit ''jane@example.com'' ''25'' ''K1'' 1700000000000 (startPage NoItem []))))
     = [SetStatus ''K1'' Retrying, Fetch ''K1'' 2]"
proof -
  let ?s0 = "startPage NoItem []"
  let ?s1 = "handleSubmit ''jane@example.com'' ''25'' ''K1'' 1700000000000 ?s0"
  let ?s2 = "stepTask failingWorld 0 ?s1"
  let ?s3 = "stepTask failingWorld 0 ?s2"
  have s1: "?s1 = \<lparr>transactions = [txK1], logsLoaded = True, txLogs = Stored [txK1],
      tasks = [Response txK1 1], trace = [Fetch ''K1'' 1]\<rparr>"
    by (simp add: txK1_def handleSubmit_def startPage_def loadLogs_def setTransactions_def
        processTransaction_def Let_def)
  have s2: "?s2 = \<lparr>transactions = [txK1], logsLoaded = True, txLogs = Stored [txK1],
      tasks = [Timer txK1 2 2000], trace = [Fetch ''K1'' 1, SetTimeout ''K1'' 2 2000]\<rparr>"
    unfolding s1
    by (simp add: failingWorld_def txK1_def stepTask_def runTask_def onResponse_def catchBlock_def
        MAX_RETRIES_def RETRY_DELAY_def)
  have s3: "?s3 = \<lparr>transactions = [txK1\<lparr>tx_status := Retrying\<rparr>], logsLoaded = True,
      txLogs = Stored [txK1\<lparr>tx_status := Retrying\<rparr>],
      tasks = [Response txK1 2],
      trace = [Fetch ''K1'' 1, SetTimeout ''K1'' 2 2000, SetStatus ''K1'' Retrying, Fetch ''K1'' 2]\<rparr>"
    unfolding s2
    by (simp add: txK1_def stepTask_def runTask_def processTransaction_def
        updateTransactionStatus_def setTransactions_def Let_def)
  have "reachable failingWorld ?s0" by (rule reachable.Starts)
  moreover have "step failingWorld ?s0 ?s1"
    by (rule step.Submits) (simp add: startPage_def loadLogs_def Let_def)
  ultimately have "reachable failingWorld ?s1" by (rule reachable.Steps)
  moreover have "step failingWorld ?s1 ?s2"
    by (rule step.Runs) (simp add: s1)
  ultimately have r: "reachable failingWorld ?s2" by (rule reachable.Steps)
  have st: "step failingWorld ?s2 ?s3"
    by (rule step.Runs) (simp add: s2)
  have a2: "statusAt ?s2 ''K1'' = Some Pending"
    unfolding s2 by (simp add: statusAt_def statusOf_def txK1_def)
  have a3: "statusAt ?s3 ''K1'' = Some Retrying"
    unfolding s3 by (simp add: statusAt_def statusOf_def txK1_def)
  have ne: "newEffects ?s2 ?s3 = [SetStatus ''K1'' Retrying, Fetch ''K1'' 2]"
    unfolding s3 unfolding s2 by (simp add: newEffects_def)
  from ledger_state_machine [OF r st, of "''K1''"] r st a2 a3 ne
  show ?thesis by simp
qed

section \<open>Properties of the start on stored data\<close>

lemma readStatus_encodeTx: "readStatus (encodeTx tx) = Returned (Some (JStr (statusName (tx_status tx))))"
  by (simp add: readStatus_def encodeTx_def)

lemma statusName_resumable:
  "statusName (tx_status tx) = ''pending'' \<or> statusName (tx_status tx) = ''retrying'' \<longleftrightarrow> resumable tx"
  by (cases "tx_status tx") (simp_all add: statusName_def resumable_def)

lemma forEachResume_encoded:
  "forEachResume (map encodeTx txs) acc = acc @ map encodeTx (filter resumable txs)"
  by (induction txs arbitrary: acc) (simp_all add: readStatus_encodeTx statusName_resumable)

lemma rawLoad_agrees:
  "rawTransactions (rawLoad (Stored (JArr (map encodeTx txs)))) =
     JArr (map encodeTx (transactions (startPage (Stored txs) seen))) \<and>
   map (\<lambda>tx. Response tx 1) (filter resumable txs) = tasks (startPage (Stored txs) seen) \<and>
   rawResumed (rawLoad (Stored (JArr (map encodeTx txs)))) = map encodeTx (filter resumable txs)"
  by (simp add: rawLoad_def forEachResume_encoded startPage_def loadLogs_def resumeAll_fields
      setTransactions_def Let_def)

text \<open>
  Claim C8 as stated fails for stored text that parses but has the wrong shape. The text
  \<^verbatim>\<open>null\<close> is valid JSON: the effect stores the value in the state, the \<^verbatim>\<open>forEach\<close> call
  throws and is caught, and the next render throws on \<^verbatim>\<open>transactions.length\<close>.
\<close>

theorem corrupt_but_parseable_logs_counterexample:
  "rawLoad (Stored JNull) = \<lparr>rawTransactions = JNull, rawLoaded = True, rawResumed = []\<rparr> \<and>
   renderLogsHeader (rawLoad (Stored JNull)) = Threw"
  by (simp add: rawLoad_def renderLogsHeader_def readLength_def)

text \<open>
  Claim C8, amended. For stored text on which \<^verbatim>\<open>JSON.parse\<close> throws, and for stored data of
  the shape the page writes, the start does not fail. On unparseable text the payments page
  ends in the very state of a start without stored data (empty list, nothing resumed,
  loaded, the empty list saved over the unreadable text), its render reads a length of
  zero, and a submission is accepted and sent; the orders page keeps its empty map, is
  marked loaded, and accepts and saves the next event. On well-formed data the list, resp.
  the map, is what was stored, the pending and retrying entries are resumed, and the render
  reads the list's length.
\<close>

theorem start_survives_unparseable_store:
  "startPage Malformed seen = startPage NoItem seen \<and>
   transactions (startPage Malformed seen) = [] \<and>
   tasks (startPage Malformed seen) = [] \<and>
   logsLoaded (startPage Malformed seen) \<and>
   txLogs (startPage Malformed seen) = Stored [] \<and>
   rawLoad Malformed = \<lparr>rawTransactions = JArr [], rawLoaded = True, rawResumed = []\<rparr> \<and>
   renderLogsHeader (rawLoad Malformed) = Returned (Some (JNum 0)) \<and>
   (email \<noteq> [] \<and> amount \<noteq> [] \<longrightarrow>
      transactions (handleSubmit email amount uuid now (startPage Malformed seen)) =
        [\<lparr>tx_id = uuid, tx_email = email, tx_amount = amount, tx_status = Pending,
          tx_timestamp = now\<rparr>] \<and>
      tasks (handleSubmit email amount uuid now (startPage Malformed seen)) =
        [Response \<lparr>tx_id = uuid, tx_email = email, tx_amount = amount, tx_status = Pending,
          tx_timestamp = now\<rparr> 1]) \<and>
   stateMap (hydrate (initialOrderPage Malformed)) = [] \<and>
   isLoaded (hydrate (initialOrderPage Malformed)) \<and>
   eventLog (hydrate (initialOrderPage Malformed)) = [] \<and>
   stateMap (processEvent ev (hydrate (initialOrderPage Malformed))) =
     [(ev_id ev, \<lparr>item_id = ev_id ev, lastUpdated = ev_timestamp ev, item_type = ev_type ev,
                  item_payload = ev_payload ev\<rparr>)] \<and>
   ordersDb (processEvent ev (hydrate (initialOrderPage Malformed))) =
     Stored [(ev_id ev, \<lparr>item_id = ev_id ev, lastUpdated = ev_timestamp ev,
                          item_type = ev_type ev, item_payload = ev_payload ev\<rparr>)] \<and>
   rawTransactions (rawLoad (Stored (JArr (map encodeTx txs)))) = JArr (map encodeTx txs) \<and>
   rawResumed (rawLoad (Stored (JArr (map encodeTx txs)))) = map encodeTx (filter resumable txs) \<and>
   renderLogsHeader (rawLoad (Stored (JArr (map encodeTx txs)))) =
     Returned (Some (JNum (real (length txs)))) \<and>
   transactions (startPage (Stored txs) seen) = txs \<and>
   tasks (startPage (Stored txs) seen) = map (\<lambda>tx. Response tx 1) (filter resumable txs) \<and>
   logsLoaded (startPage (Stored txs) seen) \<and>
   stateMap (hydrate (initialOrderPage (Stored entries))) = newMap entries \<and>
   isLoaded (hydrate (initialOrderPage (Stored entries)))"
proof -
  have page: "startPage Malformed seen = startPage NoItem seen"
    "transactions (startPage Malformed seen) = []"
    "tasks (startPage Malformed seen) = []"
    "logsLoaded (startPage Malformed seen)"
    "txLogs (startPage Malformed seen) = Stored []"
    by (simp_all add: startPage_def loadLogs_def Let_def)
  have raw: "rawLoad Malformed = \<lparr>rawTransactions = JArr [], rawLoaded = True, rawResumed = []\<rparr>"
    "renderLogsHeader (rawLoad Malformed) = Returned (Some (JNum 0))"
    by (simp_all add: rawLoad_def renderLogsHeader_def readLength_def initialRawPage_def)
  have submit: "email \<noteq> [] \<and> amount \<noteq> [] \<longrightarrow>
      transactions (handleSubmit email amount uuid now (startPage Malformed seen)) =
        [\<lparr>tx_id = uuid, tx_email = email, tx_amount = amount, tx_status = Pending,
          tx_timestamp = now\<rparr>] \<and>
      tasks (handleSubmit email amount uuid now (startPage Malformed seen)) =
        [Response \<lparr>tx_id = uuid, tx_email = email, tx_amount = amount, tx_status = Pending,
          tx_timestamp = now\<rparr> 1]"
    by (simp add: startPage_def loadLogs_def handleSubmit_def setTransactions_def Let_def)
  have orders: "stateMap (hydrate (initialOrderPage Malformed)) = []"
    "isLoaded (hydrate (initialOrderPage Malformed))"
    "eventLog (hydrate (initialOrderPage Malformed)) = []"
    by (simp_all add: hydrate_def initialOrderPage_def)
  have event: "stateMap (processEvent ev (hydrate (initialOrderPage Malformed))) =
     [(ev_id ev, \<lparr>item_id = ev_id ev, lastUpdated = ev_timestamp ev, item_type = ev_type ev,
                  item_payload = ev_payload ev\<rparr>)]"
    "ordersDb (processEvent ev (hydrate (initialOrderPage Malformed))) =
     Stored [(ev_id ev, \<lparr>item_id = ev_id ev, lastUpdated = ev_timestamp ev,
                          item_type = ev_type ev, item_payload = ev_payload ev\<rparr>)]"
    by (simp_all add: hydrate_def initialOrderPage_def processEvent_def saveToStorage_def
        snapshotOf_def Let_def)
  have shaped: "rawTransactions (rawLoad (Stored (JArr (map encodeTx txs)))) = JArr (map encodeTx txs)"
    "rawResumed (rawLoad (Stored (JArr (map encodeTx txs)))) = map encodeTx (filter resumable txs)"
    "renderLogsHeader (rawLoad (Stored (JArr (map encodeTx txs)))) =
       Returned (Some (JNum (real (length txs))))"
    by (simp_all add: rawLoad_def forEachResume_encoded renderLogsHeader_def readLength_def)
  have typed: "transactions (startPage (Stored txs) seen) = txs"
    "tasks (startPage (Stored txs) seen) = map (\<lambda>tx. Response tx 1) (filter resumable txs)"
    "logsLoaded (startPage (Stored txs) seen)"
    by (simp_all add: startPage_def loadLogs_def resumeAll_fields setTransactions_def Let_def)
  have hyd: "stateMap (hydrate (initialOrderPage (Stored entries))) = newMap entries"
    "isLoaded (hydrate (initialOrderPage (Stored entries)))"
    by (simp_all add: hydrate_def initialOrderPage_def)
  from page raw submit orders event shaped typed hyd show ?thesis by simp
qed

theorem start_survives_unparseable_store_witness:
  "transactions (handleSubmit ''jane@example.com'' ''25'' ''K1'' 1700000000000 (startPage Malformed []))
     = [txK1] \<and>
   tasks (handleSubmit ''jane@example.com'' ''25'' ''K1'' 1700000000000 (startPage Malformed []))
     = [Response txK1 1] \<and>
   stateMap (processEvent (evA 100 Created ''PENDING'') (hydrate (initialOrderPage Malformed)))
     = [(''A'', \<lparr>item_id = ''A'', lastUpdated = 100, item_type = Created,
                  item_payload = ''PENDING''\<rparr>)] \<and>
   startPage Malformed [] =
     \<lparr>transactions = [], logsLoaded = True, txLogs = Stored [], tasks = [], trace = []\<rparr>"
  using start_survives_unparseable_store [of "[]" "''jane@example.com''" "''25''" "''K1''"
      1700000000000 "evA 100 Created ''PENDING''" "[]" "[]"]
  by (simp add: txK1_def evA_def startPage_def loadLogs_def handleSubmit_def setTransactions_def
      processTransaction_def Let_def)

end
